theory Spec2Isabelle
  imports Main "HOL-Library.AList" "HOL-Library.Monad_Syntax"
begin

section \<open>The concurrent map of \<^verbatim>\<open>src/sync/map/map.go\<close>\<close>

text \<open>
  The development embeds the \<^verbatim>\<open>Map\<close> of \<^verbatim>\<open>src/sync/map/map.go\<close>: the read snapshot, the
  dirty map, the miss counter, the mutex and the entries that the two maps share by
  pointer. Entries live in an explicit store (a function from addresses to the
  pointer held in the field \<^verbatim>\<open>p\<close> of the entry at that address), so that sharing an entry
  between the snapshot and the dirty map is sharing an address.

  Every method is modelled as one uninterrupted run of its body, on the state it
  finds and returning the state it leaves: the model has one goroutine at a time.
  A call that does not return normally (a write to a nil map panics, locking a held
  mutex blocks for ever, unlocking a free mutex is a fatal error) has the value
  \<open>None\<close>. A state whose mutex is \<open>Locked\<close> at the start of a call stands for
  another goroutine holding the lock at that moment.
\<close>

subsection \<open>Values, entry pointers and the entry store\<close>

text \<open>
  A Go \<^verbatim>\<open>interface{}\<close> value: the nil interface or a boxed value. Keys are an arbitrary
  type with HOL equality (Go requires keys to be comparable).
\<close>

datatype 'a interface = INil | IVal 'a

text \<open>
  The field \<^verbatim>\<open>p unsafe.Pointer\<close> of an entry: \<^verbatim>\<open>nil\<close>, the sentinel \<^verbatim>\<open>expunged\<close>, or a
  pointer to an interface value. The cell pointed to is written once, when the
  pointer is made, so the pointer is identified with the value it points to.
\<close>

datatype 'a pointer = nil | expunged | Ref "'a interface"

type_synonym addr = nat

type_synonym 'a heap = "addr \<Rightarrow> 'a pointer"

text \<open>
  Modelled from the spec: the atomic primitives of \<^verbatim>\<open>sync/atomic\<close> (their code is not
  under \<^verbatim>\<open>src/\<close>): an atomic load, an atomic store and a compare-and-swap of the pointer
  field of the entry at an address.
\<close>

definition LoadPointer :: "'a heap \<Rightarrow> addr \<Rightarrow> 'a pointer" where
  "LoadPointer h e = h e"

definition StorePointer :: "'a heap \<Rightarrow> addr \<Rightarrow> 'a pointer \<Rightarrow> 'a heap" where
  "StorePointer h e new = h(e := new)"

definition CompareAndSwapPointer ::
  "'a heap \<Rightarrow> addr \<Rightarrow> 'a pointer \<Rightarrow> 'a pointer \<Rightarrow> 'a heap \<times> bool" where
  "CompareAndSwapPointer h e old new =
     (if h e = old then (h(e := new), True) else (h, False))"

subsection \<open>The methods of an entry\<close>

text \<open>\<^verbatim>\<open>func (e *entry) load() (value interface{}, ok bool)\<close>\<close>

definition load :: "'a heap \<Rightarrow> addr \<Rightarrow> 'a interface \<times> bool" where
  "load h e =
     (case LoadPointer h e of
        nil \<Rightarrow> (INil, False)
      | expunged \<Rightarrow> (INil, False)
      | Ref v \<Rightarrow> (v, True))"

text \<open>
  \<^verbatim>\<open>func (e *entry) tryStore(i *interface{}) bool\<close>: the \<^verbatim>\<open>for\<close> loop is the recursion; it
  goes round again only when the compare-and-swap fails.
\<close>

function tryStore :: "'a heap \<Rightarrow> addr \<Rightarrow> 'a interface \<Rightarrow> 'a heap \<times> bool" where
  "tryStore h e i =
     (let p = LoadPointer h e in
      if p = expunged then (h, False)
      else (let (h', swapped) = CompareAndSwapPointer h e p (Ref i) in
            if swapped then (h', True) else tryStore h' e i))"
  by pat_completeness auto
termination
  by (relation "{}") (auto simp: CompareAndSwapPointer_def LoadPointer_def)

declare tryStore.simps [simp del]

text \<open>\<^verbatim>\<open>func (e *entry) unexpungeLocked() (wasExpunged bool)\<close>\<close>

definition unexpungeLocked :: "'a heap \<Rightarrow> addr \<Rightarrow> 'a heap \<times> bool" where
  "unexpungeLocked h e = CompareAndSwapPointer h e expunged nil"

text \<open>\<^verbatim>\<open>func (e *entry) storeLocked(i *interface{})\<close>\<close>

definition storeLocked :: "'a heap \<Rightarrow> addr \<Rightarrow> 'a interface \<Rightarrow> 'a heap" where
  "storeLocked h e i = StorePointer h e (Ref i)"

text \<open>
  \<^verbatim>\<open>func (e *entry) tryLoadOrStore(i interface{}) (actual interface{}, loaded, ok bool)\<close>:
  the two tests before the loop, then the loop.
\<close>

function tryLoadOrStore_loop ::
  "'a heap \<Rightarrow> addr \<Rightarrow> 'a interface \<Rightarrow> 'a heap \<times> 'a interface \<times> bool \<times> bool" where
  "tryLoadOrStore_loop h e i =
     (let (h', swapped) = CompareAndSwapPointer h e nil (Ref i) in
      if swapped then (h', i, False, True)
      else (case LoadPointer h' e of
              expunged \<Rightarrow> (h', INil, False, False)
            | Ref v \<Rightarrow> (h', v, True, True)
            | nil \<Rightarrow> tryLoadOrStore_loop h' e i))"
  by pat_completeness auto
termination
  by (relation "{}")
     (auto simp: CompareAndSwapPointer_def LoadPointer_def split: if_splits)

declare tryLoadOrStore_loop.simps [simp del]

definition tryLoadOrStore ::
  "'a heap \<Rightarrow> addr \<Rightarrow> 'a interface \<Rightarrow> 'a heap \<times> 'a interface \<times> bool \<times> bool" where
  "tryLoadOrStore h e i =
     (case LoadPointer h e of
        expunged \<Rightarrow> (h, INil, False, False)
      | Ref v \<Rightarrow> (h, v, True, True)
      | nil \<Rightarrow> tryLoadOrStore_loop h e i)"

text \<open>\<^verbatim>\<open>func (e *entry) delete() (hadValue bool)\<close>\<close>

function delete :: "'a heap \<Rightarrow> addr \<Rightarrow> 'a heap \<times> bool" where
  "delete h e =
     (let p = LoadPointer h e in
      if p = nil \<or> p = expunged then (h, False)
      else (let (h', swapped) = CompareAndSwapPointer h e p nil in
            if swapped then (h', True) else delete h' e))"
  by pat_completeness auto
termination
  by (relation "{}") (auto simp: CompareAndSwapPointer_def LoadPointer_def)

declare delete.simps [simp del]

text \<open>
  \<^verbatim>\<open>func (e *entry) tryExpungeLocked() (isExpunged bool)\<close>: the loop carries the pointer
  \<^verbatim>\<open>p\<close> it last loaded.
\<close>

function tryExpungeLocked_loop :: "'a heap \<Rightarrow> addr \<Rightarrow> 'a pointer \<Rightarrow> 'a heap \<times> bool" where
  "tryExpungeLocked_loop h e p =
     (if p = nil then
        (let (h', swapped) = CompareAndSwapPointer h e nil expunged in
         if swapped then (h', True)
         else tryExpungeLocked_loop h' e (LoadPointer h' e))
      else (h, p = expunged))"
  by pat_completeness auto
termination
  by (relation "measure (\<lambda>(h, e, p). if p = nil then 1 else 0)")
     (auto simp: CompareAndSwapPointer_def LoadPointer_def split: if_splits)

declare tryExpungeLocked_loop.simps [simp del]

definition tryExpungeLocked :: "'a heap \<Rightarrow> addr \<Rightarrow> 'a heap \<times> bool" where
  "tryExpungeLocked h e = tryExpungeLocked_loop h e (LoadPointer h e)"

subsection \<open>Go maps from keys to entries\<close>

text \<open>
  A value of type \<^verbatim>\<open>map[interface{}]*entry\<close>: \<open>None\<close> is the nil map, \<open>Some xs\<close> a map
  whose pairs are \<open>xs\<close>, in the order in which \<^verbatim>\<open>range\<close> yields them (Go leaves that
  order open; a theorem about every list is a theorem about every order). Reading a
  nil map finds nothing, its length is 0, deleting from it does nothing, and
  assigning into it panics.
\<close>

type_synonym 'k gomap = "('k \<times> addr) list option"

definition mapaccess :: "'k gomap \<Rightarrow> 'k \<Rightarrow> addr option" where
  "mapaccess mp key = (case mp of None \<Rightarrow> None | Some xs \<Rightarrow> map_of xs key)"

definition maplen :: "'k gomap \<Rightarrow> int" where
  "maplen mp = (case mp of None \<Rightarrow> 0 | Some xs \<Rightarrow> int (length xs))"

definition mapassign :: "'k gomap \<Rightarrow> 'k \<Rightarrow> addr \<Rightarrow> 'k gomap option" where
  "mapassign mp key e =
     (case mp of None \<Rightarrow> None | Some xs \<Rightarrow> Some (Some (AList.update key e xs)))"

definition mapdelete :: "'k gomap \<Rightarrow> 'k \<Rightarrow> 'k gomap" where
  "mapdelete mp key = (case mp of None \<Rightarrow> None | Some xs \<Rightarrow> Some (AList.delete key xs))"

definition maprange :: "'k gomap \<Rightarrow> ('k \<times> addr) list" where
  "maprange mp = (case mp of None \<Rightarrow> [] | Some xs \<Rightarrow> xs)"

subsection \<open>The state of a Map\<close>

text \<open>
  Modelled from the spec: the mutual-exclusion lock \<^verbatim>\<open>Mutex\<close> (its code is not under
  \<^verbatim>\<open>src/\<close>): it is free or held.
\<close>

datatype Mutex = Unlocked | Locked

record 'k readOnly =
  m :: "'k gomap"
  amended :: bool

text \<open>
  The fields of \<^verbatim>\<open>Map\<close>, then the store of the entries and the next free address.
  \<open>read\<close> is the \<^verbatim>\<open>atomic.Value\<close>: \<open>None\<close> until the first \<^verbatim>\<open>Store\<close> into it. \<open>misses\<close> is
  a Go \<^verbatim>\<open>int\<close>: an integer that \<open>goInt\<close> keeps in the range of 64 bits.
\<close>

record ('k, 'a) Map =
  mu :: Mutex
  read :: "'k readOnly option"
  dirty :: "'k gomap"
  misses :: int
  heap :: "'a heap"
  alloc :: addr

text \<open>The zero value of \<^verbatim>\<open>Map\<close>, with no entry allocated yet.\<close>

definition zeroMap :: "('k, 'a) Map" where
  "zeroMap = \<lparr>mu = Unlocked, read = None, dirty = None, misses = 0,
              heap = (\<lambda>_. nil), alloc = 0\<rparr>"

definition Lock :: "('k, 'a) Map \<Rightarrow> ('k, 'a) Map option" where
  "Lock s = (case mu s of Locked \<Rightarrow> None | Unlocked \<Rightarrow> Some (s\<lparr>mu := Locked\<rparr>))"

definition Unlock :: "('k, 'a) Map \<Rightarrow> ('k, 'a) Map option" where
  "Unlock s = (case mu s of Unlocked \<Rightarrow> None | Locked \<Rightarrow> Some (s\<lparr>mu := Unlocked\<rparr>))"

text \<open>\<^verbatim>\<open>read, _ := m.read.Load().(readOnly)\<close>: the zero \<^verbatim>\<open>readOnly\<close> when nothing was stored.\<close>

definition loadRead :: "('k, 'a) Map \<Rightarrow> 'k readOnly" where
  "loadRead s = (case read s of None \<Rightarrow> \<lparr>m = None, amended = False\<rparr> | Some r \<Rightarrow> r)"

text \<open>\<^verbatim>\<open>m.dirty[key] = e\<close>\<close>

definition assignDirty :: "('k, 'a) Map \<Rightarrow> 'k \<Rightarrow> addr \<Rightarrow> ('k, 'a) Map option" where
  "assignDirty s key e =
     (case mapassign (dirty s) key e of
        None \<Rightarrow> None
      | Some d \<Rightarrow> Some (s\<lparr>dirty := d\<rparr>))"

text \<open>\<^verbatim>\<open>func newEntry(i interface{}) *entry\<close>: a new entry at the next free address.\<close>

definition newEntry :: "('k, 'a) Map \<Rightarrow> 'a interface \<Rightarrow> addr \<times> ('k, 'a) Map" where
  "newEntry s i =
     (alloc s, s\<lparr>heap := (heap s)(alloc s := Ref i), alloc := Suc (alloc s)\<rparr>)"

subsection \<open>Misses and the dirty map\<close>

text \<open>
  The value a Go \<^verbatim>\<open>int\<close> of 64 bits takes for an arithmetic result: it wraps around, so
  that one more than the largest \<^verbatim>\<open>int\<close> is the smallest. (The length of a map is an
  \<^verbatim>\<open>int\<close> that never wraps: a Go map has fewer than \<open>2 ^ 63\<close> keys.)
\<close>

definition goInt :: "int \<Rightarrow> int" where
  "goInt x = (x + 2 ^ 63) mod 2 ^ 64 - 2 ^ 63"

text \<open>\<^verbatim>\<open>func (m *Map) missLocked()\<close>, with the wrap-around of \<^verbatim>\<open>m.misses++\<close>\<close>

definition missLocked :: "('k, 'a) Map \<Rightarrow> ('k, 'a) Map" where
  "missLocked s =
     (let s1 = s\<lparr>misses := goInt (misses s + 1)\<rparr> in
      if misses s1 < maplen (dirty s1) then s1
      else s1\<lparr>read := Some \<lparr>m = dirty s1, amended = False\<rparr>, dirty := None, misses := 0\<rparr>)"

text \<open>
  The loop of \<^verbatim>\<open>dirtyLocked\<close> over the pairs of \<^verbatim>\<open>read.m\<close>, carrying the entry store and
  the pairs of the map under construction.
\<close>

fun dirtyLocked_loop ::
  "('k \<times> addr) list \<Rightarrow> 'a heap \<Rightarrow> ('k \<times> addr) list \<Rightarrow> 'a heap \<times> ('k \<times> addr) list" where
  "dirtyLocked_loop [] h d = (h, d)"
| "dirtyLocked_loop ((k, e) # rest) h d =
     (let (h', isExpunged) = tryExpungeLocked h e in
      dirtyLocked_loop rest h' (if \<not> isExpunged then AList.update k e d else d))"

text \<open>\<^verbatim>\<open>func (m *Map) dirtyLocked()\<close>\<close>

definition dirtyLocked :: "('k, 'a) Map \<Rightarrow> ('k, 'a) Map" where
  "dirtyLocked s =
     (if dirty s \<noteq> None then s
      else (let read0 = loadRead s;
                (h, d) = dirtyLocked_loop (maprange (m read0)) (heap s) []
            in s\<lparr>dirty := Some d, heap := h\<rparr>))"

subsection \<open>The methods of Map\<close>

text \<open>\<^verbatim>\<open>func (m *Map) Load(key interface{}) (value interface{}, ok bool)\<close>\<close>

definition Load ::
  "('k, 'a) Map \<Rightarrow> 'k \<Rightarrow> (('a interface \<times> bool) \<times> ('k, 'a) Map) option" where
  "Load s key =
     (let read0 = loadRead s; r0 = mapaccess (m read0) key in
      do {
        (r, s') \<leftarrow>
          (if r0 = None \<and> amended read0 then
             do {
               s1 \<leftarrow> Lock s;
               let read1 = loadRead s1;
               let r1 = mapaccess (m read1) key;
               let (r2, s2) = (if r1 = None \<and> amended read1
                               then (mapaccess (dirty s1) key, missLocked s1)
                               else (r1, s1));
               s3 \<leftarrow> Unlock s2;
               Some (r2, s3)
             }
           else Some (r0, s));
        Some (case r of None \<Rightarrow> (INil, False) | Some e \<Rightarrow> load (heap s') e, s')
      })"

text \<open>
  \<^verbatim>\<open>func (m *Map) Store(key, value interface{})\<close>: the attempt without the lock, then the
  three cases under the lock.
\<close>

definition Store :: "('k, 'a) Map \<Rightarrow> 'k \<Rightarrow> 'a interface \<Rightarrow> ('k, 'a) Map option" where
  "Store s key val =
     (let read0 = loadRead s;
          (s0, stored) = (case mapaccess (m read0) key of
                            None \<Rightarrow> (s, False)
                          | Some e \<Rightarrow> (let (h, ok) = tryStore (heap s) e val
                                       in (s\<lparr>heap := h\<rparr>, ok)))
      in if stored then Some s0
         else do {
           s1 \<leftarrow> Lock s0;
           let read1 = loadRead s1;
           s2 \<leftarrow>
             (case mapaccess (m read1) key of
                Some e \<Rightarrow>
                  do {
                    let (h, wasExpunged) = unexpungeLocked (heap s1) e;
                    let s1a = s1\<lparr>heap := h\<rparr>;
                    s1b \<leftarrow> (if wasExpunged then assignDirty s1a key e else Some s1a);
                    Some (s1b\<lparr>heap := storeLocked (heap s1b) e val\<rparr>)
                  }
              | None \<Rightarrow>
                  (case mapaccess (dirty s1) key of
                     Some e \<Rightarrow> Some (s1\<lparr>heap := storeLocked (heap s1) e val\<rparr>)
                   | None \<Rightarrow>
                       do {
                         let s1a = (if \<not> amended read1
                                    then (dirtyLocked s1)
                                           \<lparr>read := Some \<lparr>m = m read1, amended = True\<rparr>\<rparr>
                                    else s1);
                         let (e, s1b) = newEntry s1a val;
                         assignDirty s1b key e
                       }));
           Unlock s2
         })"

text \<open>
  \<^verbatim>\<open>func (m *Map) LoadOrStore(key, value interface{}) (actual interface{}, loaded bool)\<close>
\<close>

definition LoadOrStore ::
  "('k, 'a) Map \<Rightarrow> 'k \<Rightarrow> 'a interface \<Rightarrow> (('a interface \<times> bool) \<times> ('k, 'a) Map) option" where
  "LoadOrStore s key val =
     (let read0 = loadRead s;
          (s0, hit) = (case mapaccess (m read0) key of
                         None \<Rightarrow> (s, None)
                       | Some e \<Rightarrow>
                           (let (h, actual, loaded, ok) = tryLoadOrStore (heap s) e val
                            in (s\<lparr>heap := h\<rparr>, if ok then Some (actual, loaded) else None)))
      in case hit of
           Some res \<Rightarrow> Some (res, s0)
         | None \<Rightarrow>
             do {
               s1 \<leftarrow> Lock s0;
               let read1 = loadRead s1;
               (res, s2) \<leftarrow>
                 (case mapaccess (m read1) key of
                    Some e \<Rightarrow>
                      do {
                        let (h, wasExpunged) = unexpungeLocked (heap s1) e;
                        let s1a = s1\<lparr>heap := h\<rparr>;
                        s1b \<leftarrow> (if wasExpunged then assignDirty s1a key e else Some s1a);
                        let (h', actual, loaded, _) = tryLoadOrStore (heap s1b) e val;
                        Some ((actual, loaded), s1b\<lparr>heap := h'\<rparr>)
                      }
                  | None \<Rightarrow>
                      (case mapaccess (dirty s1) key of
                         Some e \<Rightarrow>
                           (let (h', actual, loaded, _) = tryLoadOrStore (heap s1) e val
                            in Some ((actual, loaded), missLocked (s1\<lparr>heap := h'\<rparr>)))
                       | None \<Rightarrow>
                           do {
                             let s1a = (if \<not> amended read1
                                        then (dirtyLocked s1)
                                               \<lparr>read := Some \<lparr>m = m read1, amended = True\<rparr>\<rparr>
                                        else s1);
                             let (e, s1b) = newEntry s1a val;
                             s1c \<leftarrow> assignDirty s1b key e;
                             Some ((val, False), s1c)
                           }));
               s3 \<leftarrow> Unlock s2;
               Some (res, s3)
             })"

text \<open>\<^verbatim>\<open>func (m *Map) Delete(key interface{})\<close>\<close>

definition Delete :: "('k, 'a) Map \<Rightarrow> 'k \<Rightarrow> ('k, 'a) Map option" where
  "Delete s key =
     (let read0 = loadRead s; r0 = mapaccess (m read0) key in
      do {
        (r, s') \<leftarrow>
          (if r0 = None \<and> amended read0 then
             do {
               s1 \<leftarrow> Lock s;
               let read1 = loadRead s1;
               let r1 = mapaccess (m read1) key;
               let s2 = (if r1 = None \<and> amended read1
                         then s1\<lparr>dirty := mapdelete (dirty s1) key\<rparr>
                         else s1);
               s3 \<leftarrow> Unlock s2;
               Some (r1, s3)
             }
           else Some (r0, s));
        Some (case r of None \<Rightarrow> s' | Some e \<Rightarrow> s'\<lparr>heap := fst (delete (heap s') e)\<rparr>)
      })"

text \<open>
  The loop of \<^verbatim>\<open>Range\<close> over the pairs of \<^verbatim>\<open>read.m\<close>. The visitor \<open>f\<close> is a function of the
  key and the value only; the result is the list of its calls, in order.
\<close>

fun range_loop ::
  "'a heap \<Rightarrow> ('k \<times> addr) list \<Rightarrow> ('k \<Rightarrow> 'a interface \<Rightarrow> bool) \<Rightarrow> ('k \<times> 'a interface) list" where
  "range_loop h [] f = []"
| "range_loop h ((k, e) # rest) f =
     (let (v, ok) = load h e in
      if \<not> ok then range_loop h rest f
      else if \<not> f k v then [(k, v)]
      else (k, v) # range_loop h rest f)"

text \<open>\<^verbatim>\<open>func (m *Map) Range(f func(key, value interface{}) bool)\<close>\<close>

definition Range ::
  "('k, 'a) Map \<Rightarrow> ('k \<Rightarrow> 'a interface \<Rightarrow> bool) \<Rightarrow>
     (('k \<times> 'a interface) list \<times> ('k, 'a) Map) option" where
  "Range s f =
     (let read0 = loadRead s in
      do {
        (read2, s') \<leftarrow>
          (if amended read0 then
             do {
               s1 \<leftarrow> Lock s;
               let read1 = loadRead s1;
               let (read2, s2) =
                     (if amended read1 then
                        (let promoted = \<lparr>m = dirty s1, amended = False\<rparr> in
                         (promoted, s1\<lparr>read := Some promoted, dirty := None, misses := 0\<rparr>))
                      else (read1, s1));
               s3 \<leftarrow> Unlock s2;
               Some (read2, s3)
             }
           else Some (read0, s));
        Some (range_loop (heap s') (maprange (m read2)) f, s')
      })"

subsection \<open>Well-formed states and reachable states\<close>

text \<open>
  What every state between two calls satisfies, apart from the mutex: the snapshot is
  amended exactly when the dirty map exists; the keys of each map are distinct (a Go
  map holds a key once); an entry of the snapshot is expunged only while the dirty map
  exists; no entry of the dirty map is expunged.
\<close>

definition Map_ok :: "('k, 'a) Map \<Rightarrow> bool" where
  "Map_ok s \<longleftrightarrow>
     (amended (loadRead s) \<longleftrightarrow> dirty s \<noteq> None) \<and>
     distinct (map fst (maprange (m (loadRead s)))) \<and>
     distinct (map fst (maprange (dirty s))) \<and>
     (dirty s = None \<longrightarrow> (\<forall>(k, e) \<in> set (maprange (m (loadRead s))). heap s e \<noteq> expunged)) \<and>
     (\<forall>(k, e) \<in> set (maprange (dirty s)). heap s e \<noteq> expunged)"

definition Map_inv :: "('k, 'a) Map \<Rightarrow> bool" where
  "Map_inv s \<longleftrightarrow> mu s = Unlocked \<and> Map_ok s"

text \<open>One call of a method of the map that returns, and the states reached by such calls
  from the zero value.\<close>

inductive step :: "('k, 'a) Map \<Rightarrow> ('k, 'a) Map \<Rightarrow> bool" where
  step_Load: "Load s key = Some (r, s') \<Longrightarrow> step s s'"
| step_Store: "Store s key val = Some s' \<Longrightarrow> step s s'"
| step_LoadOrStore: "LoadOrStore s key val = Some (r, s') \<Longrightarrow> step s s'"
| step_Delete: "Delete s key = Some s' \<Longrightarrow> step s s'"
| step_Range: "Range s f = Some (calls, s') \<Longrightarrow> step s s'"

inductive reachable :: "('k, 'a) Map \<Rightarrow> bool" where
  reachable_zero: "reachable zeroMap"
| reachable_step: "reachable s \<Longrightarrow> step s s' \<Longrightarrow> reachable s'"

subsection \<open>The value a key has\<close>

text \<open>
  The value a lookup of \<open>k\<close> finds: through the snapshot when it has the key, through the
  dirty map when the snapshot is amended, nothing otherwise.
\<close>

definition value_of :: "'a pointer \<Rightarrow> 'a interface option" where
  "value_of p = (case p of Ref v \<Rightarrow> Some v | _ \<Rightarrow> None)"

definition lookup :: "('k, 'a) Map \<Rightarrow> 'k \<Rightarrow> 'a interface option" where
  "lookup s k =
     (case mapaccess (m (loadRead s)) k of
        Some e \<Rightarrow> value_of (heap s e)
      | None \<Rightarrow>
          if amended (loadRead s)
          then (case mapaccess (dirty s) k of Some e \<Rightarrow> value_of (heap s e) | None \<Rightarrow> None)
          else None)"

subsection \<open>What one call does to the snapshot and the dirty map\<close>

text \<open>
  The three shapes of a call: it keeps the snapshot and does not clear the dirty map; or
  it leaves an amended snapshot and a dirty map; or it promotes the dirty map it found,
  clears it and resets the miss counter.
\<close>

definition step_shape :: "('k, 'a) Map \<Rightarrow> ('k, 'a) Map \<Rightarrow> bool" where
  "step_shape s s' \<longleftrightarrow>
     (read s' = read s \<and> (dirty s \<noteq> None \<longrightarrow> dirty s' \<noteq> None)) \<or>
     (amended (loadRead s') \<and> dirty s' \<noteq> None) \<or>
     (dirty s \<noteq> None \<and> read s' = Some \<lparr>m = dirty s, amended = False\<rparr> \<and>
      dirty s' = None \<and> misses s' = 0)"

subsection \<open>Some states\<close>

text \<open>
  The states after \<^verbatim>\<open>Store("a", 1)\<close> on the zero map, then \<^verbatim>\<open>Load("a")\<close>, then
  \<^verbatim>\<open>Delete("a")\<close>, then \<^verbatim>\<open>Store("b", 2)\<close>; the entry of \<open>a\<close> is at address 0, that of \<open>b\<close>
  at address 1.
\<close>

definition s_dirty_only :: "(string, int) Map" where
  "s_dirty_only =
     \<lparr>mu = Unlocked, read = Some \<lparr>m = None, amended = True\<rparr>, dirty = Some [(''a'', 0)],
      misses = 0, heap = (\<lambda>_. nil)(0 := Ref (IVal 1)), alloc = 1\<rparr>"

definition s_promoted :: "(string, int) Map" where
  "s_promoted =
     \<lparr>mu = Unlocked, read = Some \<lparr>m = Some [(''a'', 0)], amended = False\<rparr>, dirty = None,
      misses = 0, heap = (\<lambda>_. nil)(0 := Ref (IVal 1)), alloc = 1\<rparr>"

definition s_deleted :: "(string, int) Map" where
  "s_deleted =
     \<lparr>mu = Unlocked, read = Some \<lparr>m = Some [(''a'', 0)], amended = False\<rparr>, dirty = None,
      misses = 0, heap = (\<lambda>_. nil)(0 := nil), alloc = 1\<rparr>"

definition s_tombstoned :: "(string, int) Map" where
  "s_tombstoned =
     \<lparr>mu = Unlocked, read = Some \<lparr>m = Some [(''a'', 0)], amended = True\<rparr>,
      dirty = Some [(''b'', 1)], misses = 0,
      heap = (\<lambda>_. nil)(0 := expunged, 1 := Ref (IVal 2)), alloc = 2\<rparr>"

subsection \<open>Entries and the allocator\<close>

text \<open>Every entry of the snapshot and of the dirty map lies below the next free address,
  so that the entry \<^verbatim>\<open>newEntry\<close> makes is none of them.\<close>

definition allocated :: "('k, 'a) Map \<Rightarrow> bool" where
  "allocated s \<longleftrightarrow>
     (\<forall>(k, e) \<in> set (maprange (m (loadRead s))). e < alloc s) \<and>
     (\<forall>(k, e) \<in> set (maprange (dirty s)). e < alloc s)"

section \<open>Properties\<close>

subsection \<open>The entry methods, one round of each loop\<close>

lemma tryStore_eq:
  "tryStore h e i = (if h e = expunged then (h, False) else (h(e := Ref i), True))"
  by (subst tryStore.simps) (simp add: CompareAndSwapPointer_def LoadPointer_def)

lemma delete_eq:
  "delete h e = (case h e of Ref v \<Rightarrow> (h(e := nil), True) | _ \<Rightarrow> (h, False))"
  by (subst delete.simps) (simp add: CompareAndSwapPointer_def LoadPointer_def split: pointer.splits)

lemma tryLoadOrStore_eq:
  "tryLoadOrStore h e i =
     (case h e of
        expunged \<Rightarrow> (h, INil, False, False)
      | Ref v \<Rightarrow> (h, v, True, True)
      | nil \<Rightarrow> (h(e := Ref i), i, False, True))"
  unfolding tryLoadOrStore_def
  by (subst tryLoadOrStore_loop.simps)
     (simp add: CompareAndSwapPointer_def LoadPointer_def split: pointer.splits)

lemma tryExpungeLocked_eq:
  "tryExpungeLocked h e =
     (case h e of
        nil \<Rightarrow> (h(e := expunged), True)
      | expunged \<Rightarrow> (h, True)
      | Ref v \<Rightarrow> (h, False))"
  unfolding tryExpungeLocked_def
  by (subst tryExpungeLocked_loop.simps)
     (simp add: CompareAndSwapPointer_def LoadPointer_def split: pointer.splits)

lemma unexpungeLocked_eq:
  "unexpungeLocked h e = (if h e = expunged then (h(e := nil), True) else (h, False))"
  by (simp add: unexpungeLocked_def CompareAndSwapPointer_def)

lemma load_eq:
  "load h e = (case h e of Ref v \<Rightarrow> (v, True) | _ \<Rightarrow> (INil, False))"
  by (simp add: load_def LoadPointer_def split: pointer.splits)

subsection \<open>The mutex and the miss counter\<close>

lemma Lock_Unlocked: "mu s = Unlocked \<Longrightarrow> Lock s = Some (s\<lparr>mu := Locked\<rparr>)"
  by (simp add: Lock_def)

lemma Lock_Locked: "mu s = Locked \<Longrightarrow> Lock s = None"
  by (simp add: Lock_def)

lemma Unlock_Locked: "mu s = Locked \<Longrightarrow> Unlock s = Some (s\<lparr>mu := Unlocked\<rparr>)"
  by (simp add: Unlock_def)

lemma missLocked_mu: "mu (missLocked s) = mu s"
  by (simp add: missLocked_def Let_def)

lemma missLocked_heap: "heap (missLocked s) = heap s"
  by (simp add: missLocked_def Let_def)

lemma dirtyLocked_mu: "mu (dirtyLocked s) = mu s"
  by (simp add: dirtyLocked_def Let_def split: prod.splits)

subsection \<open>Store, case by case\<close>

lemma Store_read_live:
  assumes "mapaccess (m (loadRead s)) k = Some e" "heap s e \<noteq> expunged"
  shows "Store s k v = Some (s\<lparr>heap := (heap s)(e := Ref v)\<rparr>)"
  using assms by (simp add: Store_def tryStore_eq)

lemma Store_read_expunged:
  assumes "mapaccess (m (loadRead s)) k = Some e" "heap s e = expunged" "mu s = Unlocked"
    "dirty s = Some d"
  shows "Store s k v = Some (s\<lparr>dirty := Some (AList.update k e d), heap := (heap s)(e := Ref v)\<rparr>)"
  using assms
  by (simp add: Store_def tryStore_eq Lock_def Unlock_def loadRead_def unexpungeLocked_eq
      assignDirty_def mapassign_def storeLocked_def StorePointer_def)

lemma Store_dirty:
  assumes "mapaccess (m (loadRead s)) k = None" "mapaccess (dirty s) k = Some e" "mu s = Unlocked"
  shows "Store s k v = Some (s\<lparr>heap := (heap s)(e := Ref v)\<rparr>)"
  using assms
  by (simp add: Store_def Lock_def Unlock_def loadRead_def storeLocked_def StorePointer_def)

lemma Store_new_amended:
  assumes "mapaccess (m (loadRead s)) k = None" "mapaccess (dirty s) k = None" "mu s = Unlocked"
    "amended (loadRead s)" "dirty s = Some d"
  shows "Store s k v = Some (s\<lparr>dirty := Some (AList.update k (alloc s) d),
            heap := (heap s)(alloc s := Ref v), alloc := Suc (alloc s)\<rparr>)"
  using assms
  by (simp add: Store_def Lock_def Unlock_def loadRead_def newEntry_def assignDirty_def mapassign_def)

subsection \<open>The loop of dirtyLocked\<close>

lemma update_fresh: "k \<notin> fst ` set d \<Longrightarrow> AList.update k e d = d @ [(k, e)]"
  by (induction d) auto

lemma dirtyLocked_loop_eq:
  "distinct (map fst xs) \<Longrightarrow> fst ` set xs \<inter> fst ` set d = {} \<Longrightarrow>
   dirtyLocked_loop xs h d =
     (\<lambda>a. if h a = nil \<and> a \<in> snd ` set xs then expunged else h a,
      d @ filter (\<lambda>(k, e). h e \<noteq> nil \<and> h e \<noteq> expunged) xs)"
proof (induction xs arbitrary: h d)
  case Nil
  then show ?case by simp
next
  case (Cons x xs)
  obtain k e where x: "x = (k, e)" by (cases x)
  from Cons.prems x have dist: "distinct (map fst xs)" and kxs: "k \<notin> fst ` set xs"
    and kd: "k \<notin> fst ` set d" and disj: "fst ` set xs \<inter> fst ` set d = {}"
    by auto
  show ?case
  proof (cases "h e")
    case nil
    let ?h = "h(e := expunged)"
    have f: "filter (\<lambda>(k, a). ?h a \<noteq> nil \<and> ?h a \<noteq> expunged) xs
           = filter (\<lambda>(k, a). h a \<noteq> nil \<and> h a \<noteq> expunged) xs"
      using nil by (intro filter_cong) auto
    have g: "(\<lambda>a. if ?h a = nil \<and> a \<in> snd ` set xs then expunged else ?h a)
           = (\<lambda>a. if h a = nil \<and> a \<in> snd ` set (x # xs) then expunged else h a)"
      using nil by (auto simp: x fun_eq_iff)
    have "dirtyLocked_loop (x # xs) h d = dirtyLocked_loop xs ?h d"
      using nil by (simp add: x tryExpungeLocked_eq)
    also have "\<dots> = (\<lambda>a. if ?h a = nil \<and> a \<in> snd ` set xs then expunged else ?h a,
                     d @ filter (\<lambda>(k, a). ?h a \<noteq> nil \<and> ?h a \<noteq> expunged) xs)"
      by (rule Cons.IH [OF dist disj])
    finally show ?thesis
      using nil by (simp only: f g) (simp add: x)
  next
    case expunged
    then show ?thesis
      using Cons.IH [OF dist disj, of h]
      by (auto simp: x tryExpungeLocked_eq fun_eq_iff)
  next
    case (Ref v)
    have disj': "fst ` set xs \<inter> fst ` set (d @ [(k, e)]) = {}"
      using disj kxs by auto
    show ?thesis
      using Ref Cons.IH [OF dist disj', of h] kd
      by (auto simp: x tryExpungeLocked_eq update_fresh fun_eq_iff)
  qed
qed

lemma dirtyLocked_eq:
  assumes "dirty s = None" "distinct (map fst (maprange (m (loadRead s))))"
  shows "dirtyLocked s =
           s\<lparr>dirty := Some (filter (\<lambda>(k, e). heap s e \<noteq> nil \<and> heap s e \<noteq> expunged)
                               (maprange (m (loadRead s)))),
             heap := (\<lambda>a. if heap s a = nil \<and> a \<in> snd ` set (maprange (m (loadRead s)))
                           then expunged else heap s a)\<rparr>"
  using assms by (simp add: dirtyLocked_def dirtyLocked_loop_eq)

lemma dirtyLocked_id: "dirty s \<noteq> None \<Longrightarrow> dirtyLocked s = s"
  by (simp add: dirtyLocked_def)

subsection \<open>Load, Delete and Range keep states well-formed\<close>

lemma goInt_range: "- (2 ^ 63) \<le> goInt x \<and> goInt x < 2 ^ 63"
proof -
  have "0 \<le> (x + 2 ^ 63) mod 2 ^ 64" "(x + 2 ^ 63) mod 2 ^ 64 < (2 ^ 64 :: int)"
    by simp_all
  then show ?thesis by (simp add: goInt_def)
qed

lemma goInt_id: "- (2 ^ 63) \<le> x \<Longrightarrow> x < 2 ^ 63 \<Longrightarrow> goInt x = x"
  by (simp add: goInt_def mod_pos_pos_trivial)

lemma goInt_1 [simp]: "goInt 1 = 1"
  by (simp add: goInt_def)

lemma missLocked_eq:
  "missLocked s =
     (if goInt (misses s + 1) < maplen (dirty s) then s\<lparr>misses := goInt (misses s + 1)\<rparr>
      else s\<lparr>read := Some \<lparr>m = dirty s, amended = False\<rparr>, dirty := None, misses := 0\<rparr>)"
  by (simp add: missLocked_def Let_def)

lemma missLocked_in_range:
  assumes "- (2 ^ 63) \<le> misses s" "misses s < 2 ^ 63 - 1"
  shows "missLocked s =
     (if misses s + 1 < maplen (dirty s) then s\<lparr>misses := misses s + 1\<rparr>
      else s\<lparr>read := Some \<lparr>m = dirty s, amended = False\<rparr>, dirty := None, misses := 0\<rparr>)"
proof -
  have "goInt (misses s + 1) = misses s + 1"
    using assms by (intro goInt_id) simp_all
  then show ?thesis by (simp add: missLocked_eq)
qed

lemma missLocked_at_largest:
  assumes "misses s = 2 ^ 63 - 1"
  shows "missLocked s = s\<lparr>misses := - (2 ^ 63)\<rparr>"
proof -
  have "goInt (misses s + 1) = - (2 ^ 63)"
    using assms by (simp add: goInt_def)
  moreover have "- (2 ^ 63) < maplen (dirty s)"
    by (cases "dirty s") (simp_all add: maplen_def)
  ultimately show ?thesis by (simp add: missLocked_eq)
qed

lemma missLocked_mu_upd: "missLocked (s\<lparr>mu := x\<rparr>) = (missLocked s)\<lparr>mu := x\<rparr>"
  by (simp add: missLocked_eq)

lemma Map_ok_mu [simp]: "Map_ok (s\<lparr>mu := x\<rparr>) = Map_ok s"
  by (simp add: Map_ok_def loadRead_def)

lemma Map_ok_missLocked: "Map_ok s \<Longrightarrow> Map_ok (missLocked s)"
  by (auto simp: Map_ok_def missLocked_eq loadRead_def maprange_def)

lemma Load_eq:
  assumes "mu s = Unlocked"
  shows "Load s k = Some
     (case mapaccess (m (loadRead s)) k of
        Some e \<Rightarrow> (load (heap s) e, s)
      | None \<Rightarrow>
          if amended (loadRead s)
          then (case mapaccess (dirty s) k of None \<Rightarrow> (INil, False) | Some e \<Rightarrow> load (heap s) e,
                missLocked s)
          else ((INil, False), s))"
proof -
  have u: "(missLocked s)\<lparr>mu := Unlocked\<rparr> = missLocked s"
    using assms by (simp add: missLocked_eq)
  show ?thesis
    using assms u
    by (auto simp: Load_def Let_def Lock_def Unlock_def loadRead_def missLocked_mu_upd
        missLocked_heap split: option.splits)
qed

lemma Load_inv: "Map_inv s \<Longrightarrow> Load s k = Some (r, s') \<Longrightarrow> Map_inv s'"
  by (auto simp: Map_inv_def Load_eq Map_ok_missLocked missLocked_mu split: option.splits if_splits)

lemma Delete_eq:
  assumes "mu s = Unlocked"
  shows "Delete s k = Some
     (case mapaccess (m (loadRead s)) k of
        Some e \<Rightarrow> s\<lparr>heap := fst (delete (heap s) e)\<rparr>
      | None \<Rightarrow> if amended (loadRead s) then s\<lparr>dirty := mapdelete (dirty s) k\<rparr> else s)"
  using assms
  by (auto simp: Delete_def Let_def Lock_def Unlock_def loadRead_def split: option.splits)

lemma in_set_delete: "(a, b) \<in> set (AList.delete k xs) \<longleftrightarrow> a \<noteq> k \<and> (a, b) \<in> set xs"
  by (auto simp: AList.delete_eq)

lemma Delete_inv: "Map_inv s \<Longrightarrow> Delete s k = Some s' \<Longrightarrow> Map_inv s'"
  by (auto simp: Map_inv_def Delete_eq Map_ok_def delete_eq loadRead_def mapdelete_def
        maprange_def distinct_delete in_set_delete
      split: option.splits if_splits pointer.splits)

lemma Range_eq:
  assumes "mu s = Unlocked"
  shows "Range s f = Some
     (if amended (loadRead s)
      then (range_loop (heap s) (maprange (dirty s)) f,
            s\<lparr>read := Some \<lparr>m = dirty s, amended = False\<rparr>, dirty := None, misses := 0\<rparr>)
      else (range_loop (heap s) (maprange (m (loadRead s))) f, s))"
  using assms
  by (auto simp: Range_def Let_def Lock_def Unlock_def loadRead_def split: option.splits)

lemma Range_inv: "Map_inv s \<Longrightarrow> Range s f = Some (calls, s') \<Longrightarrow> Map_inv s'"
  by (auto simp: Map_inv_def Range_eq Map_ok_def loadRead_def maprange_def
      split: option.splits if_splits)

subsection \<open>Store keeps states well-formed\<close>

lemma Store_new_unamended:
  assumes "mapaccess (m (loadRead s)) k = None" "mapaccess (dirty s) k = None" "mu s = Unlocked"
    "\<not> amended (loadRead s)"
  shows "Store s k v = Some
           ((dirtyLocked s)\<lparr>read := Some \<lparr>m = m (loadRead s), amended = True\<rparr>,
               dirty := Some (AList.update k (alloc s) (maprange (dirty (dirtyLocked s)))),
               heap := (heap (dirtyLocked s))(alloc s := Ref v),
               alloc := Suc (alloc s)\<rparr>)"
proof -
  obtain d where d: "dirty (dirtyLocked (s\<lparr>mu := Locked\<rparr>)) = Some d"
    by (cases "dirty s") (auto simp: dirtyLocked_def Let_def prod.case_eq_if)
  have c: "dirtyLocked (s\<lparr>mu := Locked\<rparr>) = (dirtyLocked s)\<lparr>mu := Locked\<rparr>"
    by (simp add: dirtyLocked_def Let_def loadRead_def split: prod.splits)
  have a: "alloc (dirtyLocked s) = alloc s"
    by (simp add: dirtyLocked_def Let_def split: prod.splits)
  have u: "mu (dirtyLocked s) = Unlocked"
    using assms by (simp add: dirtyLocked_mu)
  show ?thesis
    using assms d a u
    by (simp add: Store_def Lock_def Unlock_def loadRead_def newEntry_def assignDirty_def
        mapassign_def c maprange_def)
qed

lemma in_set_update:
  "(a, b) \<in> set (AList.update k e d) \<Longrightarrow> (a = k \<and> b = e) \<or> (a, b) \<in> set d"
  by (induction d) (auto split: if_splits)

lemma Map_ok_alloc [simp]: "Map_ok (s\<lparr>alloc := n\<rparr>) = Map_ok s"
  by (simp add: Map_ok_def loadRead_def)

lemma Map_ok_heap_Ref: "Map_ok s \<Longrightarrow> Map_ok (s\<lparr>heap := (heap s)(e := Ref v)\<rparr>)"
  by (auto simp: Map_ok_def loadRead_def)

lemma Map_ok_heap_nil: "Map_ok s \<Longrightarrow> Map_ok (s\<lparr>heap := (heap s)(e := nil)\<rparr>)"
  by (auto simp: Map_ok_def loadRead_def)

lemma Map_ok_assign:
  assumes "Map_ok s" "dirty s = Some d"
  shows "Map_ok (s\<lparr>dirty := Some (AList.update k e d), heap := (heap s)(e := Ref v)\<rparr>)"
  using assms
  by (auto simp: Map_ok_def loadRead_def maprange_def distinct_update dest!: in_set_update)

lemma Map_ok_materialize:
  assumes "Map_ok s" "dirty s = None"
  shows "Map_ok ((dirtyLocked s)\<lparr>read := Some \<lparr>m = m (loadRead s), amended = True\<rparr>\<rparr>)"
proof -
  have "distinct (map fst (maprange (m (loadRead s))))"
    using assms by (simp add: Map_ok_def)
  from dirtyLocked_eq [OF assms(2) this] assms show ?thesis
    by (auto simp: Map_ok_def loadRead_def maprange_def distinct_map_filter)
qed

lemma mapaccess_in_set: "mapaccess mp k = Some e \<Longrightarrow> (k, e) \<in> set (maprange mp)"
  by (auto simp: mapaccess_def maprange_def split: option.splits dest: map_of_SomeD)

lemma Map_ok_expunged_dirty:
  assumes "Map_ok s" "mapaccess (m (loadRead s)) k = Some e" "heap s e = expunged"
  shows "\<exists>d. dirty s = Some d"
  using assms mapaccess_in_set [OF assms(2)] by (auto simp: Map_ok_def)

lemma Store_inv_Some:
  assumes "Map_inv s"
  shows "\<exists>s'. Store s k v = Some s' \<and> Map_inv s'"
proof -
  from assms have u: "mu s = Unlocked" and ok: "Map_ok s"
    by (simp_all add: Map_inv_def)
  show ?thesis
  proof (cases "mapaccess (m (loadRead s)) k")
    case (Some e)
    show ?thesis
    proof (cases "heap s e = expunged")
      case True
      from Map_ok_expunged_dirty [OF ok Some True] obtain d where d: "dirty s = Some d" ..
      show ?thesis
        using Store_read_expunged [OF Some True u d] Map_ok_assign [OF ok d] u
        by (simp add: Map_inv_def)
    next
      case False
      show ?thesis
        using Store_read_live [OF Some False] Map_ok_heap_Ref [OF ok] u
        by (simp add: Map_inv_def)
    qed
  next
    case None
    show ?thesis
    proof (cases "mapaccess (dirty s) k")
      case (Some e)
      show ?thesis
        using Store_dirty [OF None Some u] Map_ok_heap_Ref [OF ok] u
        by (simp add: Map_inv_def)
    next
      case dNone: None
      show ?thesis
      proof (cases "amended (loadRead s)")
        case True
        with ok obtain d where d: "dirty s = Some d" by (auto simp: Map_ok_def)
        have "Map_ok (s\<lparr>dirty := Some (AList.update k (alloc s) d),
            heap := (heap s)(alloc s := Ref v), alloc := Suc (alloc s)\<rparr>)"
          using Map_ok_assign [OF ok d, where k = k and e = "alloc s" and v = v] by simp
        then show ?thesis
          using Store_new_amended [OF None dNone u True d] u
          by (simp add: Map_inv_def)
      next
        case False
        with ok have dn: "dirty s = None" by (auto simp: Map_ok_def)
        let ?t = "(dirtyLocked s)\<lparr>read := Some \<lparr>m = m (loadRead s), amended = True\<rparr>\<rparr>"
        have t: "Map_ok ?t" by (rule Map_ok_materialize [OF ok dn])
        obtain d where d: "dirty ?t = Some d"
          using dn by (simp add: dirtyLocked_def Let_def prod.case_eq_if)
        have "Map_ok (?t\<lparr>dirty := Some (AList.update k (alloc s) d),
            heap := (heap ?t)(alloc s := Ref v), alloc := Suc (alloc s)\<rparr>)"
          using Map_ok_assign [OF t d, where k = k and e = "alloc s" and v = v] by simp
        then show ?thesis
          using Store_new_unamended [OF None dNone u False] u d
          by (simp add: Map_inv_def maprange_def dirtyLocked_mu)
      qed
    qed
  qed
qed

lemma mapaccess_update [simp]:
  "mapaccess (Some (AList.update k e d)) k' = (if k' = k then Some e else mapaccess (Some d) k')"
  by (simp add: mapaccess_def update_conv')

subsection \<open>Delete and Load of a key that is gone\<close>

lemma Delete_in_read:
  assumes "mapaccess (m (loadRead s)) k = Some e"
  shows "Delete s k =
           Some (s\<lparr>heap := (if heap s e = nil \<or> heap s e = expunged then heap s
                             else (heap s)(e := nil))\<rparr>)"
  using assms
  by (auto simp: Delete_def Let_def delete_eq split: pointer.splits)

lemma mapdelete_absent: "mapaccess mp k = None \<Longrightarrow> mapdelete mp k = mp"
  by (auto simp: mapaccess_def mapdelete_def map_of_eq_None_iff split: option.splits)

lemma mapaccess_mapdelete [simp]: "mapaccess (mapdelete mp k) k = None"
  by (auto simp: mapaccess_def mapdelete_def delete_conv' split: option.splits)

lemma Delete_absent:
  assumes "mapaccess (m (loadRead s)) k = None"
    "amended (loadRead s) \<longrightarrow> mu s = Unlocked \<and> mapaccess (dirty s) k = None"
  shows "Delete s k = Some s"
proof (cases "amended (loadRead s)")
  case True
  with assms show ?thesis by (simp add: Delete_eq mapdelete_absent)
next
  case False
  with assms show ?thesis by (simp add: Delete_def)
qed

lemma Load_absent:
  assumes "mu s = Unlocked" "mapaccess (m (loadRead s)) k = None"
    "amended (loadRead s) \<longrightarrow> mapaccess (dirty s) k = None"
  shows "Load s k = Some ((INil, False), if amended (loadRead s) then missLocked s else s)"
  using assms by (simp add: Load_eq)

lemma missLocked_absent:
  assumes "mapaccess (m (loadRead s)) k = None" "mapaccess (dirty s) k = None"
  shows "mapaccess (m (loadRead (missLocked s))) k = None"
    and "mapaccess (dirty (missLocked s)) k = None"
  using assms by (auto simp: missLocked_eq loadRead_def mapaccess_def)

subsection \<open>The states above are reachable\<close>

lemma step1: "Store zeroMap ''a'' (IVal 1) = Some s_dirty_only"
  by (simp add: Store_new_unamended zeroMap_def loadRead_def mapaccess_def dirtyLocked_def
      maprange_def s_dirty_only_def)

lemma step2: "Load s_dirty_only ''a'' = Some ((IVal 1, True), s_promoted)"
  by (simp add: Load_eq s_dirty_only_def s_promoted_def loadRead_def mapaccess_def load_eq
      missLocked_eq maplen_def)

lemma step3: "Delete s_promoted ''a'' = Some s_deleted"
  by (simp add: Delete_eq s_promoted_def s_deleted_def loadRead_def mapaccess_def delete_eq)

lemma step4: "Store s_deleted ''b'' (IVal 2) = Some s_tombstoned"
  by (simp add: Store_new_unamended s_deleted_def s_tombstoned_def loadRead_def mapaccess_def
      dirtyLocked_eq maprange_def fun_eq_iff)

lemma reachable_s_dirty_only: "reachable s_dirty_only"
  by (rule reachable_step [OF reachable_zero step_Store [OF step1]])

lemma reachable_s_promoted: "reachable s_promoted"
  by (rule reachable_step [OF reachable_s_dirty_only step_Load [OF step2]])

lemma reachable_s_deleted: "reachable s_deleted"
  by (rule reachable_step [OF reachable_s_promoted step_Delete [OF step3]])

lemma reachable_s_tombstoned: "reachable s_tombstoned"
  by (rule reachable_step [OF reachable_s_deleted step_Store [OF step4]])

lemma Map_inv_s_tombstoned: "Map_inv s_tombstoned"
  by (simp add: Map_inv_def Map_ok_def s_tombstoned_def loadRead_def maprange_def)

lemma Map_inv_zeroMap: "Map_inv zeroMap"
  by (simp add: Map_inv_def Map_ok_def zeroMap_def loadRead_def maprange_def)

subsection \<open>The loop of Range\<close>

lemma range_loop_Cons:
  "range_loop h ((k, e) # rest) f =
     (case h e of
        Ref v \<Rightarrow> if f k v then (k, v) # range_loop h rest f else [(k, v)]
      | _ \<Rightarrow> range_loop h rest f)"
  by (simp add: load_eq split: pointer.splits)

lemma range_loop_eq:
  "range_loop h xs f =
     (let live = List.map_filter (\<lambda>(k, e). case h e of Ref v \<Rightarrow> Some (k, v) | _ \<Rightarrow> None) xs
      in takeWhile (\<lambda>(k, v). f k v) live @ take 1 (dropWhile (\<lambda>(k, v). f k v) live))"
proof (induction xs)
  case Nil
  then show ?case by (simp add: List.map_filter_simps)
next
  case (Cons x xs)
  obtain k e where x: "x = (k, e)" by (cases x)
  show ?case
    using Cons.IH
    by (cases "h e") (simp_all add: x range_loop_Cons List.map_filter_simps Let_def
        del: range_loop.simps)
qed

lemma range_loop_keys: "(k, v) \<in> set (range_loop h xs f) \<Longrightarrow> k \<in> fst ` set xs"
proof (induction xs)
  case Nil
  then show ?case by simp
next
  case (Cons x xs)
  obtain k' e where x: "x = (k', e)" by (cases x)
  from Cons show ?case
    by (cases "h e")
       (auto simp: x range_loop_Cons simp del: range_loop.simps split: if_splits)
qed

lemma range_loop_distinct:
  "distinct (map fst xs) \<Longrightarrow> distinct (map fst (range_loop h xs f))"
proof (induction xs)
  case Nil
  then show ?case by simp
next
  case (Cons x xs)
  obtain k e where x: "x = (k, e)" by (cases x)
  from Cons.prems x have "k \<notin> fst ` set xs" by auto
  with range_loop_keys [of k _ h xs f] have "\<And>v. (k, v) \<notin> set (range_loop h xs f)"
    by blast
  then have "k \<notin> fst ` set (range_loop h xs f)" by auto
  with Cons show ?case
    by (cases "h e")
       (auto simp: x range_loop_Cons simp del: range_loop.simps)
qed

subsection \<open>LoadOrStore, case by case\<close>

lemma Load_lookup:
  assumes "mu s = Unlocked"
  shows "\<exists>s'. Load s k =
           Some (case lookup s k of Some w \<Rightarrow> (w, True) | None \<Rightarrow> (INil, False), s')"
  using assms
  by (auto simp: Load_eq lookup_def value_of_def load_eq split: option.splits pointer.splits)

lemma LoadOrStore_read_value:
  assumes "mapaccess (m (loadRead s)) k = Some e" "heap s e = Ref w"
  shows "LoadOrStore s k v = Some ((w, True), s)"
  using assms by (simp add: LoadOrStore_def tryLoadOrStore_eq)

lemma LoadOrStore_read_nil:
  assumes "mapaccess (m (loadRead s)) k = Some e" "heap s e = nil"
  shows "LoadOrStore s k v = Some ((v, False), s\<lparr>heap := (heap s)(e := Ref v)\<rparr>)"
  using assms by (simp add: LoadOrStore_def tryLoadOrStore_eq)

lemma LoadOrStore_read_expunged:
  assumes "mapaccess (m (loadRead s)) k = Some e" "heap s e = expunged" "mu s = Unlocked"
    "dirty s = Some d"
  shows "LoadOrStore s k v =
           Some ((v, False),
                 s\<lparr>dirty := Some (AList.update k e d), heap := (heap s)(e := Ref v)\<rparr>)"
  using assms
  by (simp add: LoadOrStore_def tryLoadOrStore_eq Lock_def Unlock_def loadRead_def
      unexpungeLocked_eq assignDirty_def mapassign_def)

lemma LoadOrStore_dirty:
  assumes "mapaccess (m (loadRead s)) k = None" "mapaccess (dirty s) k = Some e"
    "mu s = Unlocked"
  shows "LoadOrStore s k v =
           Some (case heap s e of
                   Ref w \<Rightarrow> ((w, True), missLocked s)
                 | nil \<Rightarrow> ((v, False), missLocked (s\<lparr>heap := (heap s)(e := Ref v)\<rparr>))
                 | expunged \<Rightarrow> ((INil, False), missLocked s))"
  using assms
  by (cases "heap s e")
     (simp_all add: LoadOrStore_def tryLoadOrStore_eq Lock_def Unlock_def loadRead_def
        missLocked_eq)

lemma LoadOrStore_new_amended:
  assumes "mapaccess (m (loadRead s)) k = None" "mapaccess (dirty s) k = None" "mu s = Unlocked"
    "amended (loadRead s)" "dirty s = Some d"
  shows "LoadOrStore s k v =
           Some ((v, False),
                 s\<lparr>dirty := Some (AList.update k (alloc s) d),
                   heap := (heap s)(alloc s := Ref v), alloc := Suc (alloc s)\<rparr>)"
  using assms
  by (simp add: LoadOrStore_def Lock_def Unlock_def loadRead_def newEntry_def assignDirty_def
      mapassign_def)

lemma LoadOrStore_new_unamended:
  assumes "mapaccess (m (loadRead s)) k = None" "mapaccess (dirty s) k = None" "mu s = Unlocked"
    "\<not> amended (loadRead s)"
  shows "LoadOrStore s k v = Some ((v, False),
           (dirtyLocked s)\<lparr>read := Some \<lparr>m = m (loadRead s), amended = True\<rparr>,
               dirty := Some (AList.update k (alloc s) (maprange (dirty (dirtyLocked s)))),
               heap := (heap (dirtyLocked s))(alloc s := Ref v),
               alloc := Suc (alloc s)\<rparr>)"
proof -
  obtain d where d: "dirty (dirtyLocked (s\<lparr>mu := Locked\<rparr>)) = Some d"
    by (cases "dirty s") (auto simp: dirtyLocked_def Let_def prod.case_eq_if)
  have c: "dirtyLocked (s\<lparr>mu := Locked\<rparr>) = (dirtyLocked s)\<lparr>mu := Locked\<rparr>"
    by (simp add: dirtyLocked_def Let_def loadRead_def split: prod.splits)
  have a: "alloc (dirtyLocked s) = alloc s"
    by (simp add: dirtyLocked_def Let_def split: prod.splits)
  have u: "mu (dirtyLocked s) = Unlocked"
    using assms by (simp add: dirtyLocked_mu)
  show ?thesis
    using assms d a u
    by (simp add: LoadOrStore_def Lock_def Unlock_def loadRead_def newEntry_def assignDirty_def
        mapassign_def c maprange_def)
qed

lemma Store_inv: "Map_inv s \<Longrightarrow> Store s k v = Some s' \<Longrightarrow> Map_inv s'"
  using Store_inv_Some [of s k v] by auto

lemma lookup_missLocked:
  assumes "mapaccess (m (loadRead s)) k = None" "amended (loadRead s)"
  shows "lookup (missLocked s) k = lookup s k"
  using assms
  by (auto simp: lookup_def missLocked_eq loadRead_def mapaccess_def split: option.splits)

lemma Map_inv_missLocked: "Map_inv s \<Longrightarrow> Map_inv (missLocked s)"
  by (simp add: Map_inv_def Map_ok_missLocked missLocked_mu)

lemma LoadOrStore_spec:
  assumes "Map_inv s"
  shows "\<exists>actual loaded s1.
           LoadOrStore s k v = Some ((actual, loaded), s1) \<and> Map_inv s1 \<and>
           lookup s1 k = Some actual \<and>
           (if loaded then lookup s k = Some actual else lookup s k = None \<and> actual = v)"
proof -
  from assms have u: "mu s = Unlocked" and ok: "Map_ok s"
    by (simp_all add: Map_inv_def)
  show ?thesis
  proof (cases "mapaccess (m (loadRead s)) k")
    case (Some e)
    show ?thesis
    proof (cases "heap s e")
      case nil
      then have ne: "heap s e \<noteq> expunged" by simp
      have "Map_inv (s\<lparr>heap := (heap s)(e := Ref v)\<rparr>)"
        using Store_inv [OF assms Store_read_live [OF Some ne]] .
      then show ?thesis
        using LoadOrStore_read_nil [OF Some nil, of v] Some nil
        by (auto simp: lookup_def value_of_def loadRead_def)
    next
      case expunged
      from Map_ok_expunged_dirty [OF ok Some expunged] obtain d where d: "dirty s = Some d" ..
      have "Map_inv (s\<lparr>dirty := Some (AList.update k e d), heap := (heap s)(e := Ref v)\<rparr>)"
        using Store_inv [OF assms Store_read_expunged [OF Some expunged u d]] .
      then show ?thesis
        using LoadOrStore_read_expunged [OF Some expunged u d, of v] Some expunged
        by (auto simp: lookup_def value_of_def loadRead_def)
    next
      case (Ref w)
      then show ?thesis
        using LoadOrStore_read_value [OF Some Ref, of v] Some assms
        by (auto simp: lookup_def value_of_def)
    qed
  next
    case None
    show ?thesis
    proof (cases "mapaccess (dirty s) k")
      case (Some e)
      then have "dirty s \<noteq> None" by (auto simp: mapaccess_def split: option.splits)
      with ok have am: "amended (loadRead s)" by (simp add: Map_ok_def)
      have ne: "heap s e \<noteq> expunged"
        using ok mapaccess_in_set [OF Some] by (auto simp: Map_ok_def)
      show ?thesis
      proof (cases "heap s e")
        case nil
        let ?t = "s\<lparr>heap := (heap s)(e := Ref v)\<rparr>"
        have t: "Map_inv ?t"
          using Store_inv [OF assms Store_dirty [OF None Some u]] .
        have l: "lookup (missLocked ?t) k = lookup ?t k"
          using None am by (intro lookup_missLocked) (simp_all add: loadRead_def)
        show ?thesis
          using LoadOrStore_dirty [OF None Some u, of v] nil None Some am
            Map_inv_missLocked [OF t] l
          by (auto simp: lookup_def [of s] lookup_def [of ?t] value_of_def loadRead_def)
      next
        case expunged
        with ne show ?thesis by simp
      next
        case (Ref w)
        show ?thesis
          using LoadOrStore_dirty [OF None Some u, of v] Ref None Some am
            Map_inv_missLocked [OF assms] lookup_missLocked [OF None am]
          by (auto simp: lookup_def [of s] value_of_def)
      qed
    next
      case dNone: None
      have ls: "lookup s k = None"
        using None dNone by (auto simp: lookup_def)
      show ?thesis
      proof (cases "amended (loadRead s)")
        case True
        with ok obtain d where d: "dirty s = Some d" by (auto simp: Map_ok_def)
        have "Map_inv (s\<lparr>dirty := Some (AList.update k (alloc s) d),
            heap := (heap s)(alloc s := Ref v), alloc := Suc (alloc s)\<rparr>)"
          using Store_inv [OF assms Store_new_amended [OF None dNone u True d]] .
        then show ?thesis
          using LoadOrStore_new_amended [OF None dNone u True d, of v] ls None True
          by (auto simp: lookup_def value_of_def loadRead_def)
      next
        case False
        have "Map_inv ((dirtyLocked s)\<lparr>read := Some \<lparr>m = m (loadRead s), amended = True\<rparr>,
               dirty := Some (AList.update k (alloc s) (maprange (dirty (dirtyLocked s)))),
               heap := (heap (dirtyLocked s))(alloc s := Ref v),
               alloc := Suc (alloc s)\<rparr>)"
          using Store_inv [OF assms Store_new_unamended [OF None dNone u False]] .
        then show ?thesis
          using LoadOrStore_new_unamended [OF None dNone u False, of v] ls None
          by (auto simp: lookup_def value_of_def loadRead_def)
      qed
    qed
  qed
qed

lemma LoadOrStore_inv:
  "Map_inv s \<Longrightarrow> LoadOrStore s k v = Some (r, s') \<Longrightarrow> Map_inv s'"
  using LoadOrStore_spec [of s k v] by auto

subsection \<open>Filtering a map\<close>

lemma map_of_filter_distinct:
  assumes "distinct (map fst xs)" "(k, e) \<in> set xs"
  shows "map_of (filter P xs) k = (if P (k, e) then Some e else None)"
  using assms
proof (induction xs)
  case Nil
  then show ?case by simp
next
  case (Cons x xs)
  then show ?case
    by (cases x) (force simp: map_of_eq_None_iff image_iff)
qed

lemma map_of_filter_None: "map_of xs k = None \<Longrightarrow> map_of (filter P xs) k = None"
  by (auto simp: map_of_eq_None_iff)

subsection \<open>Store, then Load\<close>

lemma Store_then_Load_entry:
  assumes "Map_inv s"
  shows "\<exists>s1 s2 e. Store s k v = Some s1 \<and> Load s1 k = Some ((v, True), s2) \<and>
           (mapaccess (m (loadRead s1)) k = Some e \<or>
            mapaccess (m (loadRead s1)) k = None \<and> mapaccess (dirty s1) k = Some e) \<and>
           heap s1 e = Ref v"
proof -
  from assms have u: "mu s = Unlocked" and ok: "Map_ok s"
    by (simp_all add: Map_inv_def)
  show ?thesis
  proof (cases "mapaccess (m (loadRead s)) k")
    case (Some e)
    show ?thesis
    proof (cases "heap s e = expunged")
      case True
      from Map_ok_expunged_dirty [OF ok Some True] obtain d where d: "dirty s = Some d" ..
      show ?thesis
        using Store_read_expunged [OF Some True u d] Some u
        by (simp add: Load_eq loadRead_def load_eq)
    next
      case False
      show ?thesis
        using Store_read_live [OF Some False] Some u
        by (simp add: Load_eq loadRead_def load_eq)
    qed
  next
    case None
    show ?thesis
    proof (cases "mapaccess (dirty s) k")
      case (Some e)
      then have "dirty s \<noteq> None" by (auto simp: mapaccess_def split: option.splits)
      with ok have am: "amended (loadRead s)" by (simp add: Map_ok_def)
      show ?thesis
        using Store_dirty [OF None Some u] None Some u am
        by (simp add: Load_eq loadRead_def load_eq)
    next
      case dNone: None
      show ?thesis
      proof (cases "amended (loadRead s)")
        case True
        with ok obtain d where d: "dirty s = Some d" by (auto simp: Map_ok_def)
        show ?thesis
          using Store_new_amended [OF None dNone u True d] None u True
          by (simp add: Load_eq loadRead_def load_eq)
      next
        case False
        show ?thesis
          using Store_new_unamended [OF None dNone u False] None u
          by (simp add: Load_eq loadRead_def load_eq dirtyLocked_mu)
      qed
    qed
  qed
qed

subsection \<open>Every reachable state is well-formed\<close>

lemma step_shape_missLocked:
  assumes "dirty s \<noteq> None"
  shows "step_shape s (missLocked s)"
  using assms by (auto simp: step_shape_def missLocked_eq)

lemma step_shape_heap: "step_shape s (s\<lparr>heap := h\<rparr>)"
  by (simp add: step_shape_def)

lemma Store_shape:
  assumes "Map_inv s" "Store s k v = Some s'"
  shows "step_shape s s'"
proof -
  from assms have u: "mu s = Unlocked" and ok: "Map_ok s"
    by (simp_all add: Map_inv_def)
  show ?thesis
  proof (cases "mapaccess (m (loadRead s)) k")
    case (Some e)
    show ?thesis
    proof (cases "heap s e = expunged")
      case True
      from Map_ok_expunged_dirty [OF ok Some True] obtain d where d: "dirty s = Some d" ..
      show ?thesis
        using Store_read_expunged [OF Some True u d, of v] assms(2)
        by (auto simp: step_shape_def)
    next
      case False
      show ?thesis
        using Store_read_live [OF Some False, of v] assms(2)
        by (auto simp: step_shape_def)
    qed
  next
    case None
    show ?thesis
    proof (cases "mapaccess (dirty s) k")
      case (Some e)
      show ?thesis
        using Store_dirty [OF None Some u, of v] assms(2)
        by (auto simp: step_shape_def)
    next
      case dNone: None
      show ?thesis
      proof (cases "amended (loadRead s)")
        case True
        with ok obtain d where d: "dirty s = Some d" by (auto simp: Map_ok_def)
        show ?thesis
          using Store_new_amended [OF None dNone u True d, of v] assms(2)
          by (auto simp: step_shape_def)
      next
        case False
        show ?thesis
          using Store_new_unamended [OF None dNone u False, of v] assms(2)
          by (auto simp: step_shape_def loadRead_def)
      qed
    qed
  qed
qed

lemma LoadOrStore_shape:
  assumes "Map_inv s" "LoadOrStore s k v = Some (r, s')"
  shows "step_shape s s'"
proof -
  from assms have u: "mu s = Unlocked" and ok: "Map_ok s"
    by (simp_all add: Map_inv_def)
  show ?thesis
  proof (cases "mapaccess (m (loadRead s)) k")
    case (Some e)
    show ?thesis
    proof (cases "heap s e")
      case nil
      show ?thesis
        using LoadOrStore_read_nil [OF Some nil, of v] assms(2)
        by (auto simp: step_shape_def)
    next
      case expunged
      from Map_ok_expunged_dirty [OF ok Some expunged] obtain d where d: "dirty s = Some d" ..
      show ?thesis
        using LoadOrStore_read_expunged [OF Some expunged u d, of v] assms(2)
        by (auto simp: step_shape_def)
    next
      case (Ref w)
      show ?thesis
        using LoadOrStore_read_value [OF Some Ref, of v] assms(2)
        by (auto simp: step_shape_def)
    qed
  next
    case None
    show ?thesis
    proof (cases "mapaccess (dirty s) k")
      case (Some e)
      then have dn: "dirty s \<noteq> None" by (auto simp: mapaccess_def split: option.splits)
      have "step_shape s (missLocked s)"
        by (rule step_shape_missLocked [OF dn])
      moreover have "step_shape s (missLocked (s\<lparr>heap := (heap s)(e := Ref v)\<rparr>))"
        using dn by (auto simp: step_shape_def missLocked_eq)
      ultimately show ?thesis
        using LoadOrStore_dirty [OF None Some u, of v] assms(2)
        by (cases "heap s e") auto
    next
      case dNone: None
      show ?thesis
      proof (cases "amended (loadRead s)")
        case True
        with ok obtain d where d: "dirty s = Some d" by (auto simp: Map_ok_def)
        show ?thesis
          using LoadOrStore_new_amended [OF None dNone u True d, of v] assms(2)
          by (auto simp: step_shape_def)
      next
        case False
        show ?thesis
          using LoadOrStore_new_unamended [OF None dNone u False, of v] assms(2)
          by (auto simp: step_shape_def loadRead_def)
      qed
    qed
  qed
qed

lemma step_shape_step:
  assumes "Map_inv s" "step s s'"
  shows "step_shape s s'"
  using assms(2)
proof cases
  case (step_Load key r)
  from assms(1) have u: "mu s = Unlocked" and ok: "Map_ok s"
    by (simp_all add: Map_inv_def)
  from step_Load u have "s' = s \<or> (amended (loadRead s) \<and> s' = missLocked s)"
    by (auto simp: Load_eq split: option.splits if_splits)
  with ok show ?thesis
    by (auto simp: step_shape_def missLocked_eq Map_ok_def)
next
  case (step_Store key val)
  with assms(1) show ?thesis by (auto intro: Store_shape)
next
  case (step_LoadOrStore key val r)
  with assms(1) show ?thesis by (auto intro: LoadOrStore_shape)
next
  case (step_Delete key)
  from assms(1) have u: "mu s = Unlocked" by (simp add: Map_inv_def)
  from step_Delete u show ?thesis
    by (auto simp: Delete_eq step_shape_def mapdelete_def split: option.splits if_splits)
next
  case (step_Range f calls)
  from assms(1) have u: "mu s = Unlocked" and ok: "Map_ok s"
    by (simp_all add: Map_inv_def)
  from step_Range u ok show ?thesis
    by (auto simp: Range_eq step_shape_def Map_ok_def split: if_splits)
qed

lemma step_inv: "Map_inv s \<Longrightarrow> step s s' \<Longrightarrow> Map_inv s'"
  by (erule step.cases) (auto intro: Load_inv Store_inv LoadOrStore_inv Delete_inv Range_inv)

lemma reachable_inv: "reachable s \<Longrightarrow> Map_inv s"
  by (induction rule: reachable.induct) (auto intro: Map_inv_zeroMap step_inv)

subsection \<open>New entries are new\<close>

lemma allocated_assign:
  assumes "allocated s" "dirty s = Some d" "e < n" "alloc s \<le> n"
  shows "allocated (s\<lparr>dirty := Some (AList.update k e d), heap := h, alloc := n\<rparr>)"
  using assms
  by (fastforce simp: allocated_def loadRead_def maprange_def dest!: in_set_update)

lemma allocated_heap: "allocated (s\<lparr>heap := h\<rparr>) = allocated s"
  by (simp add: allocated_def loadRead_def)

lemma allocated_missLocked: "allocated s \<Longrightarrow> allocated (missLocked s)"
  by (auto simp: allocated_def missLocked_eq loadRead_def maprange_def)

lemma allocated_materialize:
  assumes "allocated s" "dirty s = None" "distinct (map fst (maprange (m (loadRead s))))"
  shows "allocated ((dirtyLocked s)\<lparr>read := Some \<lparr>m = m (loadRead s), amended = True\<rparr>\<rparr>)"
  using assms dirtyLocked_eq [OF assms(2,3)]
  by (auto simp: allocated_def loadRead_def maprange_def)

lemma Store_allocated:
  assumes "Map_inv s" "allocated s" "Store s k v = Some s'"
  shows "allocated s'"
proof -
  from assms have u: "mu s = Unlocked" and ok: "Map_ok s"
    by (simp_all add: Map_inv_def)
  show ?thesis
  proof (cases "mapaccess (m (loadRead s)) k")
    case (Some e)
    from mapaccess_in_set [OF Some] assms(2) have e: "e < alloc s"
      by (auto simp: allocated_def)
    show ?thesis
    proof (cases "heap s e = expunged")
      case True
      from Map_ok_expunged_dirty [OF ok Some True] obtain d where d: "dirty s = Some d" ..
      show ?thesis
        using Store_read_expunged [OF Some True u d, of v] assms(3)
          allocated_assign [OF assms(2) d e, where k = k and h = "(heap s)(e := Ref v)"]
        by auto
    next
      case False
      show ?thesis
        using Store_read_live [OF Some False, of v] assms(2,3)
        by (auto simp: allocated_heap)
    qed
  next
    case None
    show ?thesis
    proof (cases "mapaccess (dirty s) k")
      case (Some e)
      show ?thesis
        using Store_dirty [OF None Some u, of v] assms(2,3)
        by (auto simp: allocated_heap)
    next
      case dNone: None
      show ?thesis
      proof (cases "amended (loadRead s)")
        case True
        with ok obtain d where d: "dirty s = Some d" by (auto simp: Map_ok_def)
        show ?thesis
          using Store_new_amended [OF None dNone u True d, of v] assms(3)
            allocated_assign [OF assms(2) d, where e = "alloc s" and n = "Suc (alloc s)"
              and k = k and h = "(heap s)(alloc s := Ref v)"]
          by auto
      next
        case False
        with ok have dn: "dirty s = None" and dist: "distinct (map fst (maprange (m (loadRead s))))"
          by (auto simp: Map_ok_def)
        let ?t = "(dirtyLocked s)\<lparr>read := Some \<lparr>m = m (loadRead s), amended = True\<rparr>\<rparr>"
        have t: "allocated ?t" by (rule allocated_materialize [OF assms(2) dn dist])
        obtain d where d: "dirty ?t = Some d"
          using dn by (simp add: dirtyLocked_def Let_def prod.case_eq_if)
        have a: "alloc ?t = alloc s"
          by (simp add: dirtyLocked_def Let_def prod.case_eq_if)
        show ?thesis
          using Store_new_unamended [OF None dNone u False, of v] assms(3) d a
            allocated_assign [OF t d, where e = "alloc s" and n = "Suc (alloc s)"
              and k = k and h = "(heap (dirtyLocked s))(alloc s := Ref v)"]
          by (auto simp: maprange_def)
      qed
    qed
  qed
qed

lemma LoadOrStore_allocated:
  assumes "Map_inv s" "allocated s" "LoadOrStore s k v = Some (r, s')"
  shows "allocated s'"
proof -
  from assms have u: "mu s = Unlocked" and ok: "Map_ok s"
    by (simp_all add: Map_inv_def)
  show ?thesis
  proof (cases "mapaccess (m (loadRead s)) k")
    case (Some e)
    from mapaccess_in_set [OF Some] assms(2) have e: "e < alloc s"
      by (auto simp: allocated_def)
    show ?thesis
    proof (cases "heap s e")
      case nil
      show ?thesis
        using LoadOrStore_read_nil [OF Some nil, of v] assms(2,3)
        by (auto simp: allocated_heap)
    next
      case expunged
      from Map_ok_expunged_dirty [OF ok Some expunged] obtain d where d: "dirty s = Some d" ..
      have "Store s k v = Some s'"
        using LoadOrStore_read_expunged [OF Some expunged u d, of v] assms(3)
          Store_read_expunged [OF Some expunged u d, of v]
        by auto
      then show ?thesis by (rule Store_allocated [OF assms(1,2)])
    next
      case (Ref w)
      show ?thesis
        using LoadOrStore_read_value [OF Some Ref, of v] assms(2,3) by auto
    qed
  next
    case None
    show ?thesis
    proof (cases "mapaccess (dirty s) k")
      case (Some e)
      have "allocated (missLocked s)"
        by (rule allocated_missLocked [OF assms(2)])
      moreover have "allocated (missLocked (s\<lparr>heap := (heap s)(e := Ref v)\<rparr>))"
        using assms(2) by (intro allocated_missLocked) (simp add: allocated_heap)
      ultimately show ?thesis
        using LoadOrStore_dirty [OF None Some u, of v] assms(3)
        by (cases "heap s e") auto
    next
      case dNone: None
      have "Store s k v = Some s'"
      proof (cases "amended (loadRead s)")
        case True
        with ok obtain d where d: "dirty s = Some d" by (auto simp: Map_ok_def)
        show ?thesis
          using LoadOrStore_new_amended [OF None dNone u True d, of v] assms(3)
            Store_new_amended [OF None dNone u True d, of v]
          by auto
      next
        case False
        show ?thesis
          using LoadOrStore_new_unamended [OF None dNone u False, of v] assms(3)
            Store_new_unamended [OF None dNone u False, of v]
          by auto
      qed
      then show ?thesis by (rule Store_allocated [OF assms(1,2)])
    qed
  qed
qed

lemma step_allocated:
  assumes "Map_inv s" "allocated s" "step s s'"
  shows "allocated s'"
  using assms(3)
proof cases
  case (step_Load key r)
  from assms(1) have u: "mu s = Unlocked" by (simp add: Map_inv_def)
  from step_Load u have "s' = s \<or> s' = missLocked s"
    by (auto simp: Load_eq split: option.splits if_splits)
  with assms(2) show ?thesis by (auto intro: allocated_missLocked)
next
  case (step_Store key val)
  with assms(1,2) show ?thesis by (auto intro: Store_allocated)
next
  case (step_LoadOrStore key val r)
  with assms(1,2) show ?thesis by (auto intro: LoadOrStore_allocated)
next
  case (step_Delete key)
  from assms(1) have u: "mu s = Unlocked" by (simp add: Map_inv_def)
  have "allocated (s\<lparr>dirty := mapdelete (dirty s) key\<rparr>)"
    using assms(2)
    by (cases "dirty s")
       (auto simp: allocated_def loadRead_def mapdelete_def maprange_def in_set_delete)
  with step_Delete u assms(2) show ?thesis
    by (auto simp: Delete_eq allocated_heap split: option.splits if_splits)
next
  case (step_Range f calls)
  from assms(1) have u: "mu s = Unlocked" by (simp add: Map_inv_def)
  have "allocated (s\<lparr>read := Some \<lparr>m = dirty s, amended = False\<rparr>, dirty := None,
                          misses := 0\<rparr>)"
    using assms(2) by (cases "dirty s") (auto simp: allocated_def loadRead_def maprange_def)
  with step_Range u assms(2) show ?thesis
    by (auto simp: Range_eq split: if_splits)
qed

lemma reachable_allocated: "reachable s \<Longrightarrow> allocated s"
proof (induction rule: reachable.induct)
  case reachable_zero
  show ?case by (simp add: allocated_def zeroMap_def loadRead_def maprange_def)
next
  case (reachable_step s s')
  then show ?case by (auto intro: step_allocated reachable_inv)
qed

subsection \<open>Delete, then Load\<close>

lemma Delete_then_Load:
  assumes u: "mu s = Unlocked"
  shows "\<exists>s1 s2. Delete s k = Some s1 \<and> Load s1 k = Some ((INil, False), s2)"
proof (cases "mapaccess (m (loadRead s)) k")
  case (Some e)
  define h' where
    "h' = (if heap s e = nil \<or> heap s e = expunged then heap s else (heap s)(e := nil))"
  have d1: "Delete s k = Some (s\<lparr>heap := h'\<rparr>)"
    unfolding h'_def by (rule Delete_in_read [OF Some])
  have r1: "mapaccess (m (loadRead (s\<lparr>heap := h'\<rparr>))) k = Some e"
    using Some by (simp add: loadRead_def)
  have he: "h' e = nil \<or> h' e = expunged"
    by (auto simp: h'_def)
  have "Load (s\<lparr>heap := h'\<rparr>) k = Some ((INil, False), s\<lparr>heap := h'\<rparr>)"
    using u r1 he by (auto simp: Load_eq load_eq)
  with d1 show ?thesis by blast
next
  case None
  let ?s1 = "if amended (loadRead s) then s\<lparr>dirty := mapdelete (dirty s) k\<rparr> else s"
  have d1: "Delete s k = Some ?s1"
    using u None by (simp add: Delete_eq)
  have u1: "mu ?s1 = Unlocked" and r1: "mapaccess (m (loadRead ?s1)) k = None"
    and a1: "mapaccess (dirty ?s1) k = None \<or> \<not> amended (loadRead ?s1)"
    using u None by (auto simp: loadRead_def)
  have "Load ?s1 k = Some ((INil, False), if amended (loadRead ?s1) then missLocked ?s1 else ?s1)"
    using a1 by (intro Load_absent [OF u1 r1]) auto
  with d1 show ?thesis by blast
qed

subsection \<open>What dirtyLocked does to each pair of the snapshot\<close>

lemma dirtyLocked_pairs:
  assumes "dirty s = None" "distinct (map fst (maprange (m (loadRead s))))"
  shows "\<exists>d. dirty (dirtyLocked s) = Some d \<and>
           read (dirtyLocked s) = read s \<and> mu (dirtyLocked s) = mu s \<and>
           misses (dirtyLocked s) = misses s \<and> alloc (dirtyLocked s) = alloc s \<and>
           (\<forall>(k, e) \<in> set (maprange (m (loadRead s))).
              case heap s e of
                Ref v \<Rightarrow> map_of d k = Some e \<and> heap (dirtyLocked s) e = Ref v
              | _ \<Rightarrow> map_of d k = None \<and> heap (dirtyLocked s) e = expunged) \<and>
           (\<forall>k. mapaccess (m (loadRead s)) k = None \<longrightarrow> map_of d k = None) \<and>
           (\<forall>a. a \<notin> snd ` set (maprange (m (loadRead s))) \<longrightarrow>
                heap (dirtyLocked s) a = heap s a)"
proof -
  let ?xs = "maprange (m (loadRead s))"
  let ?P = "\<lambda>(k, e). heap s e \<noteq> nil \<and> heap s e \<noteq> expunged"
  let ?h = "\<lambda>a. if heap s a = nil \<and> a \<in> snd ` set ?xs then expunged else heap s a"
  let ?d = "filter ?P ?xs"
  have eq: "dirtyLocked s = s\<lparr>dirty := Some ?d, heap := ?h\<rparr>"
    by (rule dirtyLocked_eq [OF assms])
  have d: "dirty (dirtyLocked s) = Some ?d" and h: "heap (dirtyLocked s) = ?h"
    and frame: "read (dirtyLocked s) = read s" "mu (dirtyLocked s) = mu s"
      "misses (dirtyLocked s) = misses s" "alloc (dirtyLocked s) = alloc s"
    by (simp_all add: eq)
  have pairs: "case heap s e of
                 Ref v \<Rightarrow> map_of ?d k = Some e \<and> heap (dirtyLocked s) e = Ref v
               | _ \<Rightarrow> map_of ?d k = None \<and> heap (dirtyLocked s) e = expunged"
    if "(k, e) \<in> set ?xs" for k e
  proof -
    from that have "e \<in> snd ` set ?xs" by force
    with map_of_filter_distinct [OF assms(2) that, of ?P] show ?thesis
      unfolding h by (cases "heap s e") auto
  qed
  have absent: "map_of ?d k = None" if "mapaccess (m (loadRead s)) k = None" for k
    using that
    by (cases "m (loadRead s)") (simp_all add: mapaccess_def maprange_def map_of_filter_None)
  have others: "\<forall>a. a \<notin> snd ` set ?xs \<longrightarrow> heap (dirtyLocked s) a = heap s a"
    unfolding h by simp
  have all: "\<forall>(k, e) \<in> set ?xs.
              case heap s e of
                Ref v \<Rightarrow> map_of ?d k = Some e \<and> heap (dirtyLocked s) e = Ref v
              | _ \<Rightarrow> map_of ?d k = None \<and> heap (dirtyLocked s) e = expunged"
    using pairs by blast
  from d frame all absent others show ?thesis by blast
qed

section \<open>The claims\<close>

text \<open>
  C1: for every key \<open>k\<close> and value \<open>v\<close>, \<^verbatim>\<open>Store(k, v)\<close> and then \<^verbatim>\<open>Load(k)\<close>, with nothing
  in between, returns \<open>(v, true)\<close>. Proved from every well-formed state, hence from
  every reachable one (lemma \<open>reachable_inv\<close>); \<^verbatim>\<open>Store\<close> returns there.
\<close>

theorem C1_Store_then_Load:
  "Map_inv s \<Longrightarrow> \<exists>s1 s2. Store s k v = Some s1 \<and> Load s1 k = Some ((v, True), s2)"
  using Store_then_Load_entry [of s k v] by blast

theorem C1_Store_then_Load_witness:
  "Map_inv s_tombstoned \<and>
   Store s_tombstoned ''a'' (IVal 3) =
     Some (s_tombstoned\<lparr>dirty := Some [(''b'', 1), (''a'', 0)],
                          heap := (heap s_tombstoned)(0 := Ref (IVal 3))\<rparr>) \<and>
   (\<exists>s2. Load (s_tombstoned\<lparr>dirty := Some [(''b'', 1), (''a'', 0)],
                                heap := (heap s_tombstoned)(0 := Ref (IVal 3))\<rparr>) ''a''
          = Some ((IVal 3, True), s2))"
  using C1_Store_then_Load [OF Map_inv_s_tombstoned, of "''a''" "IVal 3"] Map_inv_s_tombstoned
  by (auto simp: Store_read_expunged [where d = "[(''b'', 1)]"] s_tombstoned_def loadRead_def
      mapaccess_def)

text \<open>
  C2: a \<^verbatim>\<open>Load\<close> of a key that the snapshot lacks, while the snapshot is amended, does
  not return while the mutex is held. With the mutex free it takes the lock, answers
  from the dirty map and runs \<^verbatim>\<open>missLocked\<close> in the state \<open>s1\<close> in which the mutex is held,
  before unlocking. \<^verbatim>\<open>missLocked\<close> adds one to the miss counter (one more than the largest
  \<^verbatim>\<open>int\<close> being the smallest; below the largest, the sum itself); when the counter has
  then reached the length of the dirty map, the snapshot becomes
  \<open>\<lparr>m = dirty, amended = False\<rparr>\<close>, the dirty map nil and the counter zero.
\<close>

theorem C2_miss_accounting:
  assumes "mapaccess (m (loadRead s)) k = None" "amended (loadRead s)"
  shows "(mu s = Locked \<longrightarrow> Load s k = None) \<and>
         (mu s = Unlocked \<longrightarrow>
            (\<exists>s1 s2.
               Lock s = Some s1 \<and> mu s1 = Locked \<and>
               Unlock (missLocked s1) = Some s2 \<and>
               Load s k =
                 Some (case mapaccess (dirty s) k of
                         None \<Rightarrow> (INil, False)
                       | Some e \<Rightarrow> load (heap s) e, s2) \<and>
               missLocked s1 =
                 (if goInt (misses s + 1) < maplen (dirty s)
                  then s1\<lparr>misses := goInt (misses s + 1)\<rparr>
                  else s1\<lparr>read := Some \<lparr>m = dirty s, amended = False\<rparr>, dirty := None,
                          misses := 0\<rparr>))) \<and>
         (- (2 ^ 63) \<le> misses s \<and> misses s < 2 ^ 63 - 1 \<longrightarrow>
            goInt (misses s + 1) = misses s + 1 \<and>
            missLocked (s\<lparr>mu := Locked\<rparr>) =
              (if misses s + 1 < maplen (dirty s) then s\<lparr>mu := Locked, misses := misses s + 1\<rparr>
               else s\<lparr>mu := Locked, read := Some \<lparr>m = dirty s, amended = False\<rparr>,
                      dirty := None, misses := 0\<rparr>))"
proof -
  have locked: "mu s = Locked \<longrightarrow> Load s k = None"
    using assms by (simp add: Load_def Lock_def)
  have free: "\<exists>s1 s2.
               Lock s = Some s1 \<and> mu s1 = Locked \<and>
               Unlock (missLocked s1) = Some s2 \<and>
               Load s k =
                 Some (case mapaccess (dirty s) k of
                         None \<Rightarrow> (INil, False)
                       | Some e \<Rightarrow> load (heap s) e, s2) \<and>
               missLocked s1 =
                 (if goInt (misses s + 1) < maplen (dirty s)
                  then s1\<lparr>misses := goInt (misses s + 1)\<rparr>
                  else s1\<lparr>read := Some \<lparr>m = dirty s, amended = False\<rparr>, dirty := None,
                          misses := 0\<rparr>)"
    if "mu s = Unlocked"
    using assms that
    by (auto simp: Load_def Let_def Lock_def Unlock_def loadRead_def missLocked_eq
        split: option.splits)
  have inrange: "- (2 ^ 63) \<le> misses s \<and> misses s < 2 ^ 63 - 1 \<longrightarrow>
            goInt (misses s + 1) = misses s + 1 \<and>
            missLocked (s\<lparr>mu := Locked\<rparr>) =
              (if misses s + 1 < maplen (dirty s) then s\<lparr>mu := Locked, misses := misses s + 1\<rparr>
               else s\<lparr>mu := Locked, read := Some \<lparr>m = dirty s, amended = False\<rparr>,
                      dirty := None, misses := 0\<rparr>)"
  proof
    assume b: "- (2 ^ 63) \<le> misses s \<and> misses s < 2 ^ 63 - 1"
    then have g: "goInt (misses s + 1) = misses s + 1"
      by (intro goInt_id) simp_all
    from b have "- (2 ^ 63) \<le> misses (s\<lparr>mu := Locked\<rparr>)" "misses (s\<lparr>mu := Locked\<rparr>) < 2 ^ 63 - 1"
      by simp_all
    from missLocked_in_range [OF this] g
    show "goInt (misses s + 1) = misses s + 1 \<and>
            missLocked (s\<lparr>mu := Locked\<rparr>) =
              (if misses s + 1 < maplen (dirty s) then s\<lparr>mu := Locked, misses := misses s + 1\<rparr>
               else s\<lparr>mu := Locked, read := Some \<lparr>m = dirty s, amended = False\<rparr>,
                      dirty := None, misses := 0\<rparr>)"
      by simp
  qed
  from locked free inrange show ?thesis by blast
qed

theorem C2_miss_accounting_witness:
  "mapaccess (m (loadRead s_tombstoned)) ''b'' = None \<and> amended (loadRead s_tombstoned) \<and>
   mu s_tombstoned = Unlocked \<and>
   - (2 ^ 63) \<le> misses s_tombstoned \<and> misses s_tombstoned < 2 ^ 63 - 1 \<and>
   goInt (misses s_tombstoned + 1) = 1 \<and>
   Load s_tombstoned ''b'' =
     Some ((IVal 2, True),
           s_tombstoned\<lparr>read := Some \<lparr>m = Some [(''b'', 1)], amended = False\<rparr>,
                          dirty := None, misses := 0\<rparr>) \<and>
   Load (s_tombstoned\<lparr>mu := Locked\<rparr>) ''b'' = None"
  using C2_miss_accounting [of s_tombstoned "''b''"]
    C2_miss_accounting [of "s_tombstoned\<lparr>mu := Locked\<rparr>" "''b''"]
  by (auto simp: s_tombstoned_def loadRead_def mapaccess_def maplen_def Lock_def Unlock_def
       Load_eq load_eq missLocked_eq)

text \<open>
  C3: in a well-formed state whose dirty map is nil, \<^verbatim>\<open>dirtyLocked\<close> goes through every
  pair \<open>(k, e)\<close> of the snapshot and calls \<^verbatim>\<open>tryExpungeLocked\<close> on the entry. When the entry
  is nil it becomes expunged and \<open>k\<close> is left out of the new dirty map; otherwise the
  call leaves the entry as it is and reports that it is not expunged, and the same
  entry (the same address) is put
  into the new dirty map under \<open>k\<close> and is left as it was. No entry of the snapshot is
  expunged in such a state, so an entry that is put into the dirty map holds a value.
  The new dirty map has no other key, no other entry changes, and the rest of the state
  stays. When the dirty map is not nil \<^verbatim>\<open>dirtyLocked\<close> does nothing; and \<^verbatim>\<open>Store\<close> and
  \<^verbatim>\<open>LoadOrStore\<close>, which call it for a key that the snapshot lacks, do not return for
  such a key while the mutex is held.
\<close>

theorem C3_materialization:
  assumes "Map_ok s" "dirty s = None"
  shows "\<exists>d. dirty (dirtyLocked s) = Some d \<and>
           read (dirtyLocked s) = read s \<and> mu (dirtyLocked s) = mu s \<and>
           misses (dirtyLocked s) = misses s \<and> alloc (dirtyLocked s) = alloc s \<and>
           (\<forall>(k, e) \<in> set (maprange (m (loadRead s))).
              if heap s e = nil
              then map_of d k = None \<and> heap (dirtyLocked s) e = expunged
              else map_of d k = Some e \<and> heap (dirtyLocked s) e = heap s e) \<and>
           (\<forall>(k, e) \<in> set (maprange (m (loadRead s))).
              tryExpungeLocked (heap s) e =
                (if heap s e = nil then ((heap s)(e := expunged), True) else (heap s, False))) \<and>
           (\<forall>(k, e) \<in> set (maprange (m (loadRead s))). heap s e \<noteq> expunged) \<and>
           (\<forall>k. mapaccess (m (loadRead s)) k = None \<longrightarrow> map_of d k = None) \<and>
           (\<forall>a. a \<notin> snd ` set (maprange (m (loadRead s))) \<longrightarrow>
                heap (dirtyLocked s) a = heap s a) \<and>
           (dirty t \<noteq> None \<longrightarrow> dirtyLocked t = t) \<and>
           (mu t = Locked \<longrightarrow> mapaccess (m (loadRead t)) k' = None \<longrightarrow>
              Store t k' v = None \<and> LoadOrStore t k' v = None)"
proof -
  let ?xs = "maprange (m (loadRead s))"
  from assms have dist: "distinct (map fst ?xs)"
    and live: "\<forall>(k, e) \<in> set ?xs. heap s e \<noteq> expunged"
    by (simp_all add: Map_ok_def)
  from dirtyLocked_pairs [OF assms(2) dist] obtain d where
    d: "dirty (dirtyLocked s) = Some d"
    and frame: "read (dirtyLocked s) = read s" "mu (dirtyLocked s) = mu s"
      "misses (dirtyLocked s) = misses s" "alloc (dirtyLocked s) = alloc s"
    and pairs: "\<forall>(k, e) \<in> set ?xs.
              case heap s e of
                Ref v \<Rightarrow> map_of d k = Some e \<and> heap (dirtyLocked s) e = Ref v
              | _ \<Rightarrow> map_of d k = None \<and> heap (dirtyLocked s) e = expunged"
    and absent: "\<forall>k. mapaccess (m (loadRead s)) k = None \<longrightarrow> map_of d k = None"
    and others: "\<forall>a. a \<notin> snd ` set ?xs \<longrightarrow> heap (dirtyLocked s) a = heap s a"
    by blast
  have each: "if heap s e = nil
              then map_of d k = None \<and> heap (dirtyLocked s) e = expunged
              else map_of d k = Some e \<and> heap (dirtyLocked s) e = heap s e"
    if "(k, e) \<in> set ?xs" for k e
    using pairs live that by (cases "heap s e") auto
  then have all: "\<forall>(k, e) \<in> set ?xs.
              if heap s e = nil
              then map_of d k = None \<and> heap (dirtyLocked s) e = expunged
              else map_of d k = Some e \<and> heap (dirtyLocked s) e = heap s e"
    by blast
  have attempt: "\<forall>(k, e) \<in> set ?xs.
              tryExpungeLocked (heap s) e =
                (if heap s e = nil then ((heap s)(e := expunged), True) else (heap s, False))"
    using live by (auto simp: tryExpungeLocked_eq split: pointer.splits)
  have id: "dirty t \<noteq> None \<longrightarrow> dirtyLocked t = t"
    by (simp add: dirtyLocked_id)
  have lock: "mu t = Locked \<longrightarrow> mapaccess (m (loadRead t)) k' = None \<longrightarrow>
              Store t k' v = None \<and> LoadOrStore t k' v = None"
    by (simp add: Store_def LoadOrStore_def Lock_def)
  show ?thesis
    by (rule exI [of _ d]) (intro conjI d frame all attempt live absent others id lock)
qed

theorem C3_materialization_witness:
  "Map_ok s_deleted \<and> dirty s_deleted = None \<and>
   dirty (dirtyLocked s_deleted) = Some [] \<and> heap (dirtyLocked s_deleted) 0 = expunged \<and>
   Map_ok s_promoted \<and> dirty s_promoted = None \<and>
   dirty (dirtyLocked s_promoted) = Some [(''a'', 0)] \<and>
   heap (dirtyLocked s_promoted) 0 = Ref (IVal 1) \<and>
   dirtyLocked s_tombstoned = s_tombstoned \<and>
   Store (s_tombstoned\<lparr>mu := Locked\<rparr>) ''c'' (IVal 3) = None"
  using C3_materialization [of s_deleted s_tombstoned "''c''" "IVal 3"]
    C3_materialization [of s_promoted "s_tombstoned\<lparr>mu := Locked\<rparr>" "''c''" "IVal 3"]
  by (simp add: s_deleted_def s_promoted_def s_tombstoned_def loadRead_def maprange_def
      dirtyLocked_eq Map_ok_def mapaccess_def)

text \<open>
  C4 as it was stated has a tombstoned entry never hold a value again, a new entry
  being allocated instead. In the reachable state \<open>s_tombstoned\<close> the entry of \<open>a\<close>, at
  address 0, is expunged; \<^verbatim>\<open>Store("a", 3)\<close> leaves the value in that same entry, puts that
  entry into the dirty map and allocates nothing.
\<close>

theorem C4_regrowth_counterexample:
  "reachable s_tombstoned \<and> mapaccess (m (loadRead s_tombstoned)) ''a'' = Some 0 \<and>
   heap s_tombstoned 0 = expunged \<and>
   Store s_tombstoned ''a'' (IVal 3) =
     Some (s_tombstoned\<lparr>dirty := Some [(''b'', 1), (''a'', 0)],
                          heap := (heap s_tombstoned)(0 := Ref (IVal 3))\<rparr>) \<and>
   heap (s_tombstoned\<lparr>dirty := Some [(''b'', 1), (''a'', 0)],
                        heap := (heap s_tombstoned)(0 := Ref (IVal 3))\<rparr>) 0 = Ref (IVal 3) \<and>
   alloc (s_tombstoned\<lparr>dirty := Some [(''b'', 1), (''a'', 0)],
                         heap := (heap s_tombstoned)(0 := Ref (IVal 3))\<rparr>) = alloc s_tombstoned"
  using reachable_s_tombstoned
  by (simp add: Store_read_expunged [where d = "[(''b'', 1)]"] s_tombstoned_def loadRead_def
      mapaccess_def)

text \<open>
  C4, as the code has it: without the lock an expunged entry is never given a value
  (\<^verbatim>\<open>tryStore\<close> and \<^verbatim>\<open>tryLoadOrStore\<close> refuse and leave it as it is). \<^verbatim>\<open>Store\<close> of a key
  whose entry in the snapshot is expunged needs the lock (it does not return while
  the mutex is held); under the lock \<^verbatim>\<open>unexpungeLocked\<close> takes the entry from expunged to
  nil, the same entry is put into the dirty map under the key, and the value is stored
  into it. No entry is allocated.
\<close>

theorem C4_unexpunge_reuses_entry:
  assumes "mapaccess (m (loadRead s)) k = Some e" "heap s e = expunged" "dirty s = Some d"
  shows "tryStore (heap s) e v = (heap s, False) \<and>
         tryLoadOrStore (heap s) e v = (heap s, INil, False, False) \<and>
         unexpungeLocked (heap s) e = ((heap s)(e := nil), True) \<and>
         (mu s = Locked \<longrightarrow> Store s k v = None) \<and>
         (mu s = Unlocked \<longrightarrow>
            Store s k v =
              Some (s\<lparr>dirty := Some (AList.update k e d), heap := (heap s)(e := Ref v)\<rparr>))"
  using assms Store_read_expunged [OF assms(1,2) _ assms(3), of v]
  by (auto simp: tryStore_eq tryLoadOrStore_eq unexpungeLocked_eq Store_def Lock_def)

theorem C4_unexpunge_reuses_entry_witness:
  "mapaccess (m (loadRead s_tombstoned)) ''a'' = Some 0 \<and> heap s_tombstoned 0 = expunged \<and>
   dirty s_tombstoned = Some [(''b'', 1)] \<and> mu s_tombstoned = Unlocked \<and>
   Store s_tombstoned ''a'' (IVal 3) =
     Some (s_tombstoned\<lparr>dirty := Some [(''b'', 1), (''a'', 0)],
                          heap := (heap s_tombstoned)(0 := Ref (IVal 3))\<rparr>) \<and>
   Store (s_tombstoned\<lparr>mu := Locked\<rparr>) ''a'' (IVal 3) = None"
  using C4_unexpunge_reuses_entry [of s_tombstoned "''a''" 0 "[(''b'', 1)]" "IVal 3"]
    C4_unexpunge_reuses_entry [of "s_tombstoned\<lparr>mu := Locked\<rparr>" "''a''" 0 "[(''b'', 1)]" "IVal 3"]
  by (simp add: s_tombstoned_def loadRead_def mapaccess_def)

text \<open>
  C5: from every well-formed state \<^verbatim>\<open>LoadOrStore(k, v)\<close> returns some \<open>(actual, loaded)\<close>,
  and a \<^verbatim>\<open>Load(k)\<close> after it finds \<open>actual\<close>. When \<open>loaded\<close> is true, a \<^verbatim>\<open>Load(k)\<close> before
  the call found \<open>actual\<close> already; when it is false, \<open>actual\<close> is \<open>v\<close> and a \<^verbatim>\<open>Load(k)\<close>
  before the call found nothing. Hence on a key that \<^verbatim>\<open>Load\<close> does not find,
  \<^verbatim>\<open>LoadOrStore(k, v)\<close> returns \<open>(v, false)\<close> and a second \<^verbatim>\<open>LoadOrStore(k, v2)\<close> returns
  \<open>(v, true)\<close>.
\<close>

theorem C5_LoadOrStore:
  assumes "Map_inv s"
  shows "(\<exists>actual loaded s1 s1'.
            LoadOrStore s k v = Some ((actual, loaded), s1) \<and>
            Load s1 k = Some ((actual, True), s1') \<and>
            (if loaded then (\<exists>s'. Load s k = Some ((actual, True), s'))
             else actual = v \<and> (\<exists>s'. Load s k = Some ((INil, False), s')))) \<and>
         ((\<exists>x s'. Load s k = Some ((x, False), s')) \<longrightarrow>
          (\<exists>s1 s2. LoadOrStore s k v = Some ((v, False), s1) \<and>
                    LoadOrStore s1 k v2 = Some ((v, True), s2)))"
proof -
  from assms have u: "mu s = Unlocked" by (simp add: Map_inv_def)
  from LoadOrStore_spec [OF assms, of k v] obtain actual loaded s1 where
    los: "LoadOrStore s k v = Some ((actual, loaded), s1)" and inv1: "Map_inv s1"
    and l1: "lookup s1 k = Some actual"
    and l0: "if loaded then lookup s k = Some actual else lookup s k = None \<and> actual = v"
    by blast
  from inv1 have u1: "mu s1 = Unlocked" by (simp add: Map_inv_def)
  from Load_lookup [OF u1, of k] l1 obtain s1' where
    ld1: "Load s1 k = Some ((actual, True), s1')" by auto
  from Load_lookup [OF u, of k] obtain s0 where
    ld0: "Load s k = Some (case lookup s k of Some w \<Rightarrow> (w, True) | None \<Rightarrow> (INil, False), s0)"
    by blast
  have first: "\<exists>actual loaded s1 s1'.
            LoadOrStore s k v = Some ((actual, loaded), s1) \<and>
            Load s1 k = Some ((actual, True), s1') \<and>
            (if loaded then (\<exists>s'. Load s k = Some ((actual, True), s'))
             else actual = v \<and> (\<exists>s'. Load s k = Some ((INil, False), s')))"
    using los ld1 ld0 l0 by (cases loaded) auto
  have second: "\<exists>s1 s2. LoadOrStore s k v = Some ((v, False), s1) \<and>
                    LoadOrStore s1 k v2 = Some ((v, True), s2)"
    if "\<exists>x s'. Load s k = Some ((x, False), s')"
  proof -
    from that ld0 have n: "lookup s k = None" by (auto split: option.splits)
    with l0 have nl: "\<not> loaded" and av: "actual = v" by (auto split: if_splits)
    from LoadOrStore_spec [OF inv1, of k v2] obtain actual2 loaded2 s2 where
      los2: "LoadOrStore s1 k v2 = Some ((actual2, loaded2), s2)"
      and l2: "if loaded2 then lookup s1 k = Some actual2
               else lookup s1 k = None \<and> actual2 = v2"
      by blast
    from l2 l1 have "loaded2" "actual2 = actual" by (auto split: if_splits)
    with los los2 nl av show ?thesis by auto
  qed
  from first second show ?thesis by blast
qed

theorem C5_LoadOrStore_witness:
  "Map_inv s_tombstoned \<and> Load s_tombstoned ''a'' = Some ((INil, False), s_tombstoned) \<and>
   LoadOrStore s_tombstoned ''a'' (IVal 7) =
     Some ((IVal 7, False),
           s_tombstoned\<lparr>dirty := Some [(''b'', 1), (''a'', 0)],
                          heap := (heap s_tombstoned)(0 := Ref (IVal 7))\<rparr>) \<and>
   LoadOrStore (s_tombstoned\<lparr>dirty := Some [(''b'', 1), (''a'', 0)],
                               heap := (heap s_tombstoned)(0 := Ref (IVal 7))\<rparr>) ''a'' (IVal 8) =
     Some ((IVal 7, True),
           s_tombstoned\<lparr>dirty := Some [(''b'', 1), (''a'', 0)],
                          heap := (heap s_tombstoned)(0 := Ref (IVal 7))\<rparr>)"
  using C5_LoadOrStore [OF Map_inv_s_tombstoned, of "''a''" "IVal 7" "IVal 8"] Map_inv_s_tombstoned
  by (auto simp: s_tombstoned_def Load_eq loadRead_def mapaccess_def load_eq
      LoadOrStore_read_expunged [where d = "[(''b'', 1)]"]
      LoadOrStore_read_value [where e = 0 and w = "IVal 7"])

text \<open>
  C6: \<^verbatim>\<open>Delete(k)\<close>, \<^verbatim>\<open>Load(k)\<close>, \<^verbatim>\<open>Delete(k)\<close>, \<^verbatim>\<open>Load(k)\<close>: both loads report that the key
  is not found, and the second \<^verbatim>\<open>Delete\<close> returns the state it was given; so does a
  \<^verbatim>\<open>Delete(k)\<close> called right after the first.
\<close>

theorem C6_Delete_idempotent:
  assumes u: "mu s = Unlocked"
  shows "\<exists>s1 x1 s2 x2 s3.
           Delete s k = Some s1 \<and> Load s1 k = Some ((x1, False), s2) \<and>
           Delete s2 k = Some s2 \<and> Load s2 k = Some ((x2, False), s3) \<and>
           Delete s1 k = Some s1"
proof (cases "mapaccess (m (loadRead s)) k")
  case (Some e)
  define h' where
    "h' = (if heap s e = nil \<or> heap s e = expunged then heap s else (heap s)(e := nil))"
  let ?s1 = "s\<lparr>heap := h'\<rparr>"
  have d1: "Delete s k = Some ?s1"
    unfolding h'_def by (rule Delete_in_read [OF Some])
  have r1: "mapaccess (m (loadRead ?s1)) k = Some e"
    using Some by (simp add: loadRead_def)
  have he: "h' e = nil \<or> h' e = expunged"
    by (auto simp: h'_def)
  have l1: "Load ?s1 k = Some ((INil, False), ?s1)"
    using u r1 he by (auto simp: Load_eq load_eq)
  have d2: "Delete ?s1 k = Some ?s1"
    using Delete_in_read [OF r1] he by auto
  from d1 l1 d2 show ?thesis by blast
next
  case None
  let ?s1 = "if amended (loadRead s) then s\<lparr>dirty := mapdelete (dirty s) k\<rparr> else s"
  have d1: "Delete s k = Some ?s1"
    using u None by (simp add: Delete_eq)
  have u1: "mu ?s1 = Unlocked" and r1: "mapaccess (m (loadRead ?s1)) k = None"
    and a1: "mapaccess (dirty ?s1) k = None \<or> \<not> amended (loadRead ?s1)"
    using u None by (auto simp: loadRead_def)
  let ?s2 = "if amended (loadRead ?s1) then missLocked ?s1 else ?s1"
  have l1: "Load ?s1 k = Some ((INil, False), ?s2)"
    using a1 by (intro Load_absent [OF u1 r1]) auto
  have d1': "Delete ?s1 k = Some ?s1"
    using a1 u1 by (intro Delete_absent [OF r1]) auto
  have u2: "mu ?s2 = Unlocked"
    using u1 by (simp add: missLocked_mu)
  have r2: "mapaccess (m (loadRead ?s2)) k = None"
    using r1 a1 by (auto simp: missLocked_absent)
  have a2: "amended (loadRead ?s2) \<longrightarrow> mapaccess (dirty ?s2) k = None"
    using r1 a1 by (auto simp: missLocked_absent)
  have d2: "Delete ?s2 k = Some ?s2"
    using a2 u2 by (intro Delete_absent [OF r2]) auto
  have l2: "Load ?s2 k = Some ((INil, False), if amended (loadRead ?s2) then missLocked ?s2 else ?s2)"
    by (rule Load_absent [OF u2 r2 a2])
  from d1 l1 d2 l2 d1' show ?thesis by blast
qed

theorem C6_Delete_idempotent_witness:
  "mu s_dirty_only = Unlocked \<and>
   (\<exists>s1 x1 s2 x2 s3.
      Delete s_dirty_only ''a'' = Some s1 \<and> Load s1 ''a'' = Some ((x1, False), s2) \<and>
      Delete s2 ''a'' = Some s2 \<and> Load s2 ''a'' = Some ((x2, False), s3) \<and>
      Delete s1 ''a'' = Some s1)"
  using C6_Delete_idempotent [of s_dirty_only "''a''"]
  by (simp add: s_dirty_only_def)

text \<open>
  C7: when the snapshot is amended, \<^verbatim>\<open>Range\<close> takes the lock (it does not return while
  the mutex is held), makes the dirty map the snapshot with \<open>amended = False\<close>, clears the
  dirty map and resets the miss counter, whatever the counter was. It then goes through
  the pairs of that snapshot in order: entries that are nil or expunged are skipped,
  the visitor is called on the others up to and including the first call that returns
  false, and no key is visited twice. The visitor is a function of the key and the
  value.
\<close>

theorem C7_Range:
  assumes "mu s = Unlocked" "amended (loadRead s)" "distinct (map fst (maprange (dirty s)))"
  shows "\<exists>s1 calls s'.
           Lock s = Some s1 \<and> Range s1 f = None \<and>
           Range s f = Some (calls, s') \<and>
           s' = s\<lparr>read := Some \<lparr>m = dirty s, amended = False\<rparr>, dirty := None, misses := 0\<rparr> \<and>
           calls =
             (let live = List.map_filter
                           (\<lambda>(k, e). case heap s e of Ref v \<Rightarrow> Some (k, v) | _ \<Rightarrow> None)
                           (maprange (m (loadRead s')))
              in takeWhile (\<lambda>(k, v). f k v) live @ take 1 (dropWhile (\<lambda>(k, v). f k v) live)) \<and>
           distinct (map fst calls)"
proof -
  let ?s' = "s\<lparr>read := Some \<lparr>m = dirty s, amended = False\<rparr>, dirty := None, misses := 0\<rparr>"
  let ?calls = "range_loop (heap s) (maprange (dirty s)) f"
  have l: "Lock s = Some (s\<lparr>mu := Locked\<rparr>)"
    using assms(1) by (rule Lock_Unlocked)
  have b: "Range (s\<lparr>mu := Locked\<rparr>) f = None"
    using assms(2) by (simp add: Range_def Lock_def loadRead_def)
  have r: "Range s f = Some (?calls, ?s')"
    using assms(1,2) by (simp add: Range_eq)
  have m': "maprange (m (loadRead ?s')) = maprange (dirty s)"
    by (simp add: loadRead_def)
  have c: "?calls =
             (let live = List.map_filter
                           (\<lambda>(k, e). case heap s e of Ref v \<Rightarrow> Some (k, v) | _ \<Rightarrow> None)
                           (maprange (m (loadRead ?s')))
              in takeWhile (\<lambda>(k, v). f k v) live @ take 1 (dropWhile (\<lambda>(k, v). f k v) live))"
    unfolding m' by (rule range_loop_eq)
  have d: "distinct (map fst ?calls)"
    by (rule range_loop_distinct [OF assms(3)])
  from l b r c d show ?thesis by blast
qed

theorem C7_Range_witness:
  "mu s_tombstoned = Unlocked \<and> amended (loadRead s_tombstoned) \<and>
   distinct (map fst (maprange (dirty s_tombstoned))) \<and>
   Range s_tombstoned (\<lambda>k v. False) =
     Some ([(''b'', IVal 2)],
           s_tombstoned\<lparr>read := Some \<lparr>m = Some [(''b'', 1)], amended = False\<rparr>,
                          dirty := None, misses := 0\<rparr>)"
  using C7_Range [of s_tombstoned "\<lambda>k v. False"]
  by (auto simp: s_tombstoned_def loadRead_def maprange_def)

text \<open>
  C8: in every reachable state an amended snapshot comes with a dirty map that is not
  nil. A call that finds a dirty map and leaves none has installed that dirty map as
  the snapshot, with \<open>amended = False\<close>, and reset the miss counter; and a call that
  installs a new snapshot with \<open>amended = False\<close> found a dirty map that was not nil and
  installed that one.
\<close>

theorem C8_amended_dirty_present:
  assumes "reachable s"
  shows "(amended (loadRead s) \<longrightarrow> dirty s \<noteq> None) \<and>
         (step s s' \<longrightarrow> dirty s \<noteq> None \<longrightarrow> dirty s' = None \<longrightarrow>
            read s' = Some \<lparr>m = dirty s, amended = False\<rparr> \<and> misses s' = 0) \<and>
         (step s s' \<longrightarrow> read s' \<noteq> read s \<longrightarrow> \<not> amended (loadRead s') \<longrightarrow>
            dirty s \<noteq> None \<and> read s' = Some \<lparr>m = dirty s, amended = False\<rparr>)"
proof -
  from reachable_inv [OF assms] have inv: "Map_inv s" .
  then have a: "amended (loadRead s) \<longrightarrow> dirty s \<noteq> None"
    by (simp add: Map_inv_def Map_ok_def)
  have b: "step s s' \<Longrightarrow> step_shape s s'"
    by (rule step_shape_step [OF inv])
  from a b show ?thesis
    by (auto simp: step_shape_def)
qed

theorem C8_amended_dirty_present_witness:
  "reachable s_dirty_only \<and> amended (loadRead s_dirty_only) \<and>
   dirty s_dirty_only = Some [(''a'', 0)] \<and>
   step s_dirty_only s_promoted \<and> dirty s_promoted = None \<and>
   read s_promoted \<noteq> read s_dirty_only \<and> \<not> amended (loadRead s_promoted) \<and>
   read s_promoted = Some \<lparr>m = dirty s_dirty_only, amended = False\<rparr> \<and>
   misses s_promoted = 0"
  using C8_amended_dirty_present [OF reachable_s_dirty_only, of s_promoted] reachable_s_dirty_only
    step_Load [OF step2]
  by (simp add: s_dirty_only_def s_promoted_def loadRead_def)

text \<open>
  C9: \<^verbatim>\<open>Delete(k)\<close> of a key of the snapshot returns whether the mutex is free or held, and
  leaves the mutex, the snapshot, the dirty map, the miss counter and the allocator as
  they are; in the entry store it changes at most the entry of \<open>k\<close>, to nil when it held
  a value.
\<close>

theorem C9_Delete_in_snapshot:
  assumes "mapaccess (m (loadRead s)) k = Some e"
  shows "\<exists>s'. Delete s k = Some s' \<and>
           read s' = read s \<and> dirty s' = dirty s \<and> misses s' = misses s \<and> mu s' = mu s \<and>
           alloc s' = alloc s \<and>
           heap s' = (if heap s e = nil \<or> heap s e = expunged then heap s
                      else (heap s)(e := nil))"
  using Delete_in_read [OF assms] by simp

theorem C9_Delete_in_snapshot_witness:
  "mapaccess (m (loadRead s_promoted)) ''a'' = Some 0 \<and>
   Delete s_promoted ''a'' = Some s_deleted \<and>
   Delete (s_promoted\<lparr>mu := Locked\<rparr>) ''a'' = Some (s_deleted\<lparr>mu := Locked\<rparr>)"
  using C9_Delete_in_snapshot [of s_promoted "''a''" 0] C9_Delete_in_snapshot [of "s_promoted\<lparr>mu := Locked\<rparr>" "''a''" 0]
  by (auto simp: s_promoted_def s_deleted_def loadRead_def mapaccess_def)

text \<open>
  C10: a stored nil is not an absent key. From every well-formed state \<^verbatim>\<open>Store(k, nil)\<close>
  and then \<^verbatim>\<open>Load(k)\<close> returns \<open>(nil, true)\<close>: the entry of \<open>k\<close> holds a pointer, which is
  not nil, to the nil interface. A \<^verbatim>\<open>Delete(k)\<close> after that makes \<^verbatim>\<open>Load(k)\<close> return
  \<open>(nil, false)\<close>; an entry whose pointer is nil or expunged loads as \<open>(nil, false)\<close>; and in
  the map that holds only \<open>k\<close>, with the value nil, \<^verbatim>\<open>Load\<close> of another key returns
  \<open>(nil, false)\<close>, as \<^verbatim>\<open>Load\<close> of any key does in the zero map.
\<close>

theorem C10_Store_nil:
  assumes "Map_inv s"
  shows "(\<exists>s1 s2 e s3 s4.
            Store s k INil = Some s1 \<and> Load s1 k = Some ((INil, True), s2) \<and>
            (mapaccess (m (loadRead s1)) k = Some e \<or>
             mapaccess (m (loadRead s1)) k = None \<and> mapaccess (dirty s1) k = Some e) \<and>
            heap s1 e = Ref INil \<and> heap s1 e \<noteq> nil \<and> load (heap s1) e = (INil, True) \<and>
            Delete s1 k = Some s3 \<and> Load s3 k = Some ((INil, False), s4)) \<and>
         (h a = nil \<or> h a = expunged \<longrightarrow> load h a = (INil, False)) \<and>
         Load (zeroMap :: ('k, 'a) Map) k' = Some ((INil, False), zeroMap) \<and>
         (k' \<noteq> k \<longrightarrow>
            (\<exists>t1 t2 t3. Store (zeroMap :: ('k, 'a) Map) k INil = Some t1 \<and>
               Load t1 k = Some ((INil, True), t2) \<and> Load t1 k' = Some ((INil, False), t3)))"
proof -
  from Store_then_Load_entry [OF assms, of k INil] obtain s1 s2 e where
    st: "Store s k INil = Some s1" and ld: "Load s1 k = Some ((INil, True), s2)"
    and en: "mapaccess (m (loadRead s1)) k = Some e \<or>
       mapaccess (m (loadRead s1)) k = None \<and> mapaccess (dirty s1) k = Some e"
    and he: "heap s1 e = Ref INil"
    by blast
  from he have ne: "heap s1 e \<noteq> nil" and le: "load (heap s1) e = (INil, True)"
    by (simp_all add: load_eq)
  from Store_inv [OF assms st] have "mu s1 = Unlocked"
    by (simp add: Map_inv_def)
  from Delete_then_Load [OF this, of k] obtain s3 s4 where
    "Delete s1 k = Some s3" "Load s3 k = Some ((INil, False), s4)"
    by blast
  with st ld en he ne le have first: "\<exists>s1 s2 e s3 s4.
            Store s k INil = Some s1 \<and> Load s1 k = Some ((INil, True), s2) \<and>
            (mapaccess (m (loadRead s1)) k = Some e \<or>
             mapaccess (m (loadRead s1)) k = None \<and> mapaccess (dirty s1) k = Some e) \<and>
            heap s1 e = Ref INil \<and> heap s1 e \<noteq> nil \<and> load (heap s1) e = (INil, True) \<and>
            Delete s1 k = Some s3 \<and> Load s3 k = Some ((INil, False), s4)"
    by blast
  have second: "h a = nil \<or> h a = expunged \<longrightarrow> load h a = (INil, False)"
    by (auto simp: load_eq)
  have third: "Load (zeroMap :: ('k, 'a) Map) k' = Some ((INil, False), zeroMap)"
    by (simp add: Load_eq zeroMap_def loadRead_def mapaccess_def)
  let ?t1 = "\<lparr>mu = Unlocked, read = Some \<lparr>m = None, amended = True\<rparr>, dirty = Some [(k, 0)],
              misses = 0, heap = (\<lambda>_. nil)(0 := Ref (INil :: 'a interface)), alloc = 1\<rparr>"
  have t1: "Store (zeroMap :: ('k, 'a) Map) k INil = Some ?t1"
    by (simp add: Store_new_unamended zeroMap_def loadRead_def mapaccess_def dirtyLocked_def
        maprange_def)
  have t2: "\<exists>t2. Load ?t1 k = Some ((INil, True), t2)"
    by (simp add: Load_eq loadRead_def mapaccess_def load_eq)
  have t3: "\<exists>t3. Load ?t1 k' = Some ((INil, False), t3)" if "k' \<noteq> k"
    using that by (simp add: Load_eq loadRead_def mapaccess_def load_eq)
  from t1 t2 t3 have fourth: "k' \<noteq> k \<longrightarrow>
            (\<exists>t1 t2 t3. Store (zeroMap :: ('k, 'a) Map) k INil = Some t1 \<and>
               Load t1 k = Some ((INil, True), t2) \<and> Load t1 k' = Some ((INil, False), t3))"
    by blast
  from first second third fourth show ?thesis by blast
qed

theorem C10_Store_nil_witness:
  "Map_inv (zeroMap :: (string, int) Map) \<and>
   Store (zeroMap :: (string, int) Map) ''a'' INil =
     Some \<lparr>mu = Unlocked, read = Some \<lparr>m = None, amended = True\<rparr>, dirty = Some [(''a'', 0)],
           misses = 0, heap = (\<lambda>_. nil)(0 := Ref INil), alloc = 1\<rparr> \<and>
   (\<exists>s2. Load \<lparr>mu = Unlocked, read = Some \<lparr>m = None, amended = True\<rparr>,
               dirty = Some [(''a'', 0)], misses = 0,
               heap = (\<lambda>_. nil)(0 := Ref (INil :: int interface)), alloc = 1\<rparr> ''a''
          = Some ((INil, True), s2)) \<and>
   (\<exists>s3. Load \<lparr>mu = Unlocked, read = Some \<lparr>m = None, amended = True\<rparr>,
               dirty = Some [(''a'', 0)], misses = 0,
               heap = (\<lambda>_. nil)(0 := Ref (INil :: int interface)), alloc = 1\<rparr> ''b''
          = Some ((INil, False), s3)) \<and>
   ''b'' \<noteq> ''a'' \<and> load ((\<lambda>_. nil) :: int heap) 0 = (INil, False)"
  using C10_Store_nil [OF Map_inv_zeroMap, of "''a''" "\<lambda>_. nil" 0 "''b''"] Map_inv_zeroMap
  by (auto simp: Store_new_unamended zeroMap_def loadRead_def mapaccess_def dirtyLocked_def
      maprange_def Load_eq load_eq missLocked_eq maplen_def)

end
